theory Spec2Isabelle
  imports Complex_Main
begin

section \<open>Data model\<close>

text \<open>
  Times are Python numbers (seconds); they are modelled as exact reals, so the rounding of
  floating-point subtraction is not part of the model. Strings are lists of 8-bit code
  points. A sentence is a Python dict; the keys the code reads or writes are the fields of
  the record below, \<open>None\<close> standing for an absent key.
\<close>

record sentence =
  index :: "int option"
  start_time :: "real option"
  end_time :: "real option"
  sentence_text :: "string option"
  speaker :: "string option"
  duration :: "real option"

text \<open>One span of a speaker, as built by \<open>_parse_speaker_result\<close>.\<close>

record segment =
  seg_start_time :: real
  seg_end_time :: real
  seg_duration :: real

text \<open>
  \<open>speaker_segments\<close> is a dict from speaker identifier to a list of spans. Iteration
  follows insertion order, so it is an association list.
\<close>

type_synonym speaker_segments = "(string \<times> segment list) list"

datatype exn = KeyError string | ValueError | IndexError | ProcessingError | FormatError

record asr_result =
  sentences :: "sentence list option"

record speaker_result =
  speaker_segments :: "speaker_segments option"

record combined =
  combined_sentences :: "sentence list"
  speaker_info :: speaker_result
  asr_info :: asr_result

section \<open>SpeakerModel._find_speaker_for_time\<close>

definition overlap :: "real \<Rightarrow> real \<Rightarrow> segment \<Rightarrow> real" where
  "overlap st en seg = min en (seg_end_time seg) - max st (seg_start_time seg)"

text \<open>The body of the inner loop: the state is \<open>(max_overlap, best_speaker)\<close>.\<close>

definition segment_step :: "real \<Rightarrow> real \<Rightarrow> string \<Rightarrow> real \<times> string \<Rightarrow> segment \<Rightarrow> real \<times> string" where
  "segment_step st en speaker_id acc seg =
     (if overlap st en seg > fst acc then (overlap st en seg, speaker_id) else acc)"

definition speaker_step :: "real \<Rightarrow> real \<Rightarrow> real \<times> string \<Rightarrow> string \<times> segment list \<Rightarrow> real \<times> string" where
  "speaker_step st en acc item = foldl (segment_step st en (fst item)) acc (snd item)"

definition find_speaker_for_time :: "real \<Rightarrow> real \<Rightarrow> speaker_segments \<Rightarrow> string" where
  "find_speaker_for_time st en segs = snd (foldl (speaker_step st en) (0, ''spk0'') segs)"

text \<open>
  The spec's notion of a speaker's overlap, written from its words: the sum over the
  speaker's spans of \<open>max(0, min(u.end, span.end) - max(u.start, span.start))\<close>.
\<close>

definition spec_total_overlap :: "real \<Rightarrow> real \<Rightarrow> segment list \<Rightarrow> real" where
  "spec_total_overlap st en ss = sum_list (map (\<lambda>seg. max 0 (overlap st en seg)) ss)"

text \<open>
  The two nested loops visit the spans in one fixed order; \<open>best_step\<close> is the loop body
  on a span paired with its speaker, and \<open>flat_spans\<close> lists all spans in that order.
\<close>

definition best_step :: "real \<Rightarrow> real \<Rightarrow> real \<times> string \<Rightarrow> string \<times> segment \<Rightarrow> real \<times> string" where
  "best_step st en acc p = segment_step st en (fst p) acc (snd p)"


definition flat_spans :: "speaker_segments \<Rightarrow> (string \<times> segment) list" where
  "flat_spans segs = concat (map (\<lambda>item. map (Pair (fst item)) (snd item)) segs)"

definition mk_segment :: "real \<Rightarrow> real \<Rightarrow> segment" where
  "mk_segment s e = \<lparr>seg_start_time = s, seg_end_time = e, seg_duration = e - s\<rparr>"

section \<open>SpeakerModel.combine_with_asr\<close>

text \<open>
  One iteration of the loop: the subscripts \<open>sentence["start_time"]\<close>,
  \<open>sentence["end_time"]\<close> and \<open>speaker_result["speaker_segments"]\<close> raise
  \<open>KeyError\<close> on an absent key, in that order.
\<close>

definition combine_sentence :: "speaker_result \<Rightarrow> sentence \<Rightarrow> exn + sentence" where
  "combine_sentence sr s =
     (case start_time s of None \<Rightarrow> Inl (KeyError ''start_time'')
      | Some st \<Rightarrow>
     (case end_time s of None \<Rightarrow> Inl (KeyError ''end_time'')
      | Some en \<Rightarrow>
     (case speaker_segments sr of None \<Rightarrow> Inl (KeyError ''speaker_segments'')
      | Some segs \<Rightarrow> Inr (s\<lparr>speaker := Some (find_speaker_for_time st en segs)\<rparr>))))"

fun combine_loop :: "speaker_result \<Rightarrow> sentence list \<Rightarrow> exn + sentence list" where
  "combine_loop sr [] = Inr []"
| "combine_loop sr (s # rest) =
     (case combine_sentence sr s of Inl e \<Rightarrow> Inl e
      | Inr s' \<Rightarrow> (case combine_loop sr rest of Inl e \<Rightarrow> Inl e | Inr rest' \<Rightarrow> Inr (s' # rest')))"

text \<open>
  The sentences are updated in place, so \<open>asr_info\<close>, which is the input dict itself,
  holds the labelled sentences too when the key is present.
\<close>

definition asr_sentences :: "asr_result \<Rightarrow> sentence list" where
  "asr_sentences ar = (case sentences ar of None \<Rightarrow> [] | Some ss \<Rightarrow> ss)"

definition combine_with_asr :: "asr_result \<Rightarrow> speaker_result \<Rightarrow> exn + combined" where
  "combine_with_asr ar sr =
     (case combine_loop sr (asr_sentences ar) of
        Inl e \<Rightarrow> Inl e
      | Inr cs \<Rightarrow> Inr \<lparr>combined_sentences = cs, speaker_info = sr,
                      asr_info = (case sentences ar of None \<Rightarrow> ar | Some ss \<Rightarrow> ar\<lparr>sentences := Some cs\<rparr>)\<rparr>)"

definition well_formed_sentence :: "sentence \<Rightarrow> bool" where
  "well_formed_sentence s = (start_time s \<noteq> None \<and> end_time s \<noteq> None)"

definition label_sentence :: "speaker_segments \<Rightarrow> sentence \<Rightarrow> sentence" where
  "label_sentence segs s =
     s\<lparr>speaker := Some (find_speaker_for_time (the (start_time s)) (the (end_time s)) segs)\<rparr>"

section \<open>Python string operations used by the subtitle processor\<close>

text \<open>
  Characters are code points below 256. \<open>str.strip\<close> and the regex class \<open>\s\<close>
  share one notion of whitespace; \<open>int\<close> strips the same characters except the four
  separator controls \<open>0x1C\<close> to \<open>0x1F\<close>. Among these code points the decimal digits
  of \<open>\d\<close> and of \<open>int\<close> are \<open>0\<close> to \<open>9\<close>.
\<close>

definition nl :: char where
  "nl = CHR 0x0A"

definition whitespace :: "char list" where
  "whitespace = [CHR 0x09, CHR 0x0A, CHR 0x0B, CHR 0x0C, CHR 0x0D, CHR 0x1C, CHR 0x1D,
                 CHR 0x1E, CHR 0x1F, CHR 0x20, CHR 0x85, CHR 0xA0]"

definition is_space :: "char \<Rightarrow> bool" where
  "is_space c = (c \<in> set whitespace)"

definition is_int_space :: "char \<Rightarrow> bool" where
  "is_int_space c = (c \<in> set [CHR 0x09, CHR 0x0A, CHR 0x0B, CHR 0x0C, CHR 0x0D, CHR 0x20, CHR 0x85, CHR 0xA0])"

definition is_digit :: "char \<Rightarrow> bool" where
  "is_digit c = (c \<in> set ''0123456789'')"

definition digit_val :: "char \<Rightarrow> nat" where
  "digit_val c = of_char c - 48"

definition digit_char :: "nat \<Rightarrow> char" where
  "digit_char d = char_of (48 + d)"

text \<open>\<open>s.strip()\<close>\<close>

definition str_strip :: "string \<Rightarrow> string" where
  "str_strip s = rev (dropWhile is_space (rev (dropWhile is_space s)))"

text \<open>\<open>s.split('\n')\<close>: never empty, \<open>''.split('\n') == ['']\<close>.\<close>

fun str_split_nl :: "string \<Rightarrow> string list" where
  "str_split_nl [] = [[]]"
| "str_split_nl (c # cs) =
     (if c = nl then [] # str_split_nl cs
      else (case str_split_nl cs of [] \<Rightarrow> [[c]] | l # ls \<Rightarrow> (c # l) # ls))"

text \<open>\<open>'\n'.join(lines)\<close>\<close>

fun str_join_nl :: "string list \<Rightarrow> string" where
  "str_join_nl [] = []"
| "str_join_nl [l] = l"
| "str_join_nl (l # l' # ls) = l @ nl # str_join_nl (l' # ls)"

text \<open>\<open>str(n)\<close> for a natural number, as the f-string \<open>f"{i}"\<close> prints the index.\<close>

fun str_nat :: "nat \<Rightarrow> string" where
  "str_nat n = (if n < 10 then [digit_char n] else str_nat (n div 10) @ [digit_char (n mod 10)])"

declare str_nat.simps [simp del]

text \<open>
  \<open>int(s)\<close> on a string: surrounding whitespace is stripped, one sign is allowed, and the
  rest is one or more groups of digits separated by single underscores. \<open>None\<close> is the
  \<open>ValueError\<close>. (The interpreter's limit on the number of digits is not modelled.)
\<close>

fun int_body :: "bool \<Rightarrow> string \<Rightarrow> bool" where
  "int_body after_digit [] = after_digit"
| "int_body after_digit (c # cs) =
     (if is_digit c then int_body True cs
      else if c = CHR ''_'' \<and> after_digit then int_body False cs
      else False)"

definition digits_value :: "string \<Rightarrow> nat" where
  "digits_value ds = foldl (\<lambda>acc c. 10 * acc + digit_val c) 0 (filter is_digit ds)"

definition py_int :: "string \<Rightarrow> int option" where
  "py_int s =
     (let t = rev (dropWhile is_int_space (rev (dropWhile is_int_space s)));
          neg = (t \<noteq> [] \<and> hd t = CHR ''-'');
          body = (if t \<noteq> [] \<and> (hd t = CHR ''-'' \<or> hd t = CHR ''+'') then tl t else t)
      in if int_body False body
         then Some (if neg then - int (digits_value body) else int (digits_value body))
         else None)"

text \<open>
  \<open>re.split(r'\n\s*\n', s)\<close>. A match starts at a newline whose following run of
  whitespace holds another newline, and, \<open>\s*\<close> being greedy, ends with the last newline
  of that run. The search goes on after the match.
\<close>

definition after_last_nl :: "string \<Rightarrow> string" where
  "after_last_nl ws = rev (takeWhile (\<lambda>c. c \<noteq> nl) (rev ws))"

function re_split_blank :: "string \<Rightarrow> string list" where
  "re_split_blank [] = [[]]"
| "re_split_blank (c # cs) =
     (if c = nl \<and> nl \<in> set (takeWhile is_space cs)
      then [] # re_split_blank (after_last_nl (takeWhile is_space cs) @ dropWhile is_space cs)
      else (case re_split_blank cs of [] \<Rightarrow> [[c]] | b # bs \<Rightarrow> (c # b) # bs))"
  by pat_completeness auto

termination re_split_blank
proof (relation "measure length")
  show "wf (measure length)" by simp
next
  fix c :: char and cs :: string
  have "length (after_last_nl (takeWhile is_space cs)) \<le> length (takeWhile is_space cs)"
    by (simp add: after_last_nl_def length_takeWhile_le [of _ "rev (takeWhile is_space cs)", simplified])
  moreover have "length (takeWhile is_space cs) + length (dropWhile is_space cs) = length cs"
    by (metis length_append takeWhile_dropWhile_id)
  ultimately show "(after_last_nl (takeWhile is_space cs) @ dropWhile is_space cs, c # cs) \<in> measure length"
    by simp
next
  fix c :: char and cs :: string
  show "(cs, c # cs) \<in> measure length" by simp
qed

text \<open>
  \<open>re.match(r'(\d{2}:\d{2}:\d{2},\d{3}) --> (\d{2}:\d{2}:\d{2},\d{3})', line)\<close>: the
  pattern is matched at the start of the line and anything may follow it.
\<close>

definition pattern_char :: "char \<Rightarrow> char \<Rightarrow> bool" where
  "pattern_char p c = (if p = CHR ''d'' then is_digit c else c = p)"

definition is_timestamp :: "string \<Rightarrow> bool" where
  "is_timestamp t = list_all2 pattern_char ''dd:dd:dd,ddd'' t"

definition match_time_line :: "string \<Rightarrow> (string \<times> string) option" where
  "match_time_line line =
     (if is_timestamp (take 12 line) \<and> take 5 (drop 12 line) = '' --> ''
         \<and> is_timestamp (take 12 (drop 17 line))
      then Some (take 12 line, take 12 (drop 17 line)) else None)"

text \<open>
  \<open>re.match(r'\[([^\]]+)\]\s*(.*)', text)\<close>: the first group runs to the first closing
  bracket and is not empty; the second group starts after the whitespace that follows the
  bracket and, the dot not matching a newline, stops before the next newline.
\<close>

definition match_speaker_tag :: "string \<Rightarrow> (string \<times> string) option" where
  "match_speaker_tag t =
     (case t of
        [] \<Rightarrow> None
      | c # r \<Rightarrow>
          if c = CHR ''['' \<and> takeWhile (\<lambda>x. x \<noteq> CHR '']'') r \<noteq> [] \<and> dropWhile (\<lambda>x. x \<noteq> CHR '']'') r \<noteq> []
          then Some (takeWhile (\<lambda>x. x \<noteq> CHR '']'') r,
                     takeWhile (\<lambda>x. x \<noteq> nl) (dropWhile is_space (tl (dropWhile (\<lambda>x. x \<noteq> CHR '']'') r))))
          else None)"

section \<open>Results of the processor's operations\<close>

text \<open>
  \<open>ProcessingResult(success=True, data=...)\<close> and
  \<open>ProcessingResult(success=False, error=...)\<close>. The error messages are named by the
  place that produces them.
\<close>

datatype failure =
    MissingOutputPath
  | MissingTargetSpeakers
  | SrtFileMissing
  | ParseFailed exn

datatype 'a processing_result = Success 'a | Failure failure

text \<open>The reads \<open>sentence.get(key, default)\<close>.\<close>

definition get_start_time :: "sentence \<Rightarrow> real" where
  "get_start_time s = (case start_time s of None \<Rightarrow> 0 | Some t \<Rightarrow> t)"

definition get_end_time :: "sentence \<Rightarrow> real" where
  "get_end_time s = (case end_time s of None \<Rightarrow> 0 | Some t \<Rightarrow> t)"

definition get_text :: "sentence \<Rightarrow> string" where
  "get_text s = (case sentence_text s of None \<Rightarrow> [] | Some t \<Rightarrow> t)"

definition get_speaker :: "sentence \<Rightarrow> string" where
  "get_speaker s = (case speaker s of None \<Rightarrow> [] | Some t \<Rightarrow> t)"

section \<open>SubtitleProcessor.generate_srt\<close>

text \<open>
  The helper \<open>_seconds_to_srt_time\<close> is called here and its body is not in the source:
  it is the parameter \<open>fmt\<close>. The lines one sentence adds to \<open>srt_content\<close>; \<open>i\<close> is
  the counter of \<open>enumerate(sentences, 1)\<close>.
\<close>

definition cue_lines :: "(real \<Rightarrow> string) \<Rightarrow> bool \<Rightarrow> nat \<Rightarrow> sentence \<Rightarrow> string list" where
  "cue_lines fmt include_speaker i s =
     (let t = str_strip (get_text s) in
      if t = [] then []
      else [str_nat i,
            fmt (get_start_time s) @ '' --> '' @ fmt (get_end_time s),
            (if get_speaker s \<noteq> [] \<and> include_speaker then ''['' @ get_speaker s @ ''] '' @ t else t),
            []])"

fun srt_loop :: "(real \<Rightarrow> string) \<Rightarrow> bool \<Rightarrow> string list \<Rightarrow> (nat \<times> sentence) list \<Rightarrow> string list" where
  "srt_loop fmt include_speaker srt_content [] = srt_content"
| "srt_loop fmt include_speaker srt_content ((i, s) # rest) =
     srt_loop fmt include_speaker (srt_content @ cue_lines fmt include_speaker i s) rest"

definition srt_text :: "(real \<Rightarrow> string) \<Rightarrow> bool \<Rightarrow> sentence list \<Rightarrow> string" where
  "srt_text fmt include_speaker ss =
     str_join_nl (srt_loop fmt include_speaker [] (enumerate 1 ss))"

record srt_written =
  srt_path :: string
  srt_file :: string
  subtitle_count :: nat
  total_duration :: real

text \<open>
  \<open>output_path\<close> is \<open>kwargs.get("output_path")\<close>; \<open>srt_file\<close> is the text written to
  that path (the write itself is taken to succeed).
\<close>

definition generate_srt ::
  "(real \<Rightarrow> string) \<Rightarrow> sentence list \<Rightarrow> string option \<Rightarrow> bool \<Rightarrow> srt_written processing_result" where
  "generate_srt fmt ss output_path include_speaker =
     (case output_path of
        None \<Rightarrow> Failure MissingOutputPath
      | Some p \<Rightarrow>
          if p = [] then Failure MissingOutputPath
          else Success \<lparr>srt_path = p,
                        srt_file = srt_text fmt include_speaker ss,
                        subtitle_count = length ss,
                        total_duration = (if ss = [] then 0 else get_end_time (last ss))\<rparr>)"

text \<open>The index lines of the emitted cue blocks, read off the emitted lines four by four.\<close>

fun index_lines :: "string list \<Rightarrow> string list" where
  "index_lines (a # b # c # d # rest) = a # index_lines rest"
| "index_lines _ = []"

section \<open>SubtitleProcessor._parse_srt_content\<close>

text \<open>
  The helper \<open>_srt_time_to_seconds\<close> is called here and its body is not in the source:
  it is the parameter \<open>prs\<close>, which returns a time or raises. Inside the \<open>try\<close>,
  \<open>ValueError\<close> and \<open>IndexError\<close> skip the block; any other exception leaves the function.
  One block gives \<open>Inr None\<close> when it is skipped and \<open>Inr (Some cue)\<close> when it is parsed.
\<close>

definition caught :: "exn \<Rightarrow> exn + sentence option" where
  "caught e = (if e = ValueError \<or> e = IndexError then Inr None else Inl e)"

definition parse_block :: "(string \<Rightarrow> exn + real) \<Rightarrow> string \<Rightarrow> exn + sentence option" where
  "parse_block prs block =
     (let lines = str_split_nl (str_strip block) in
      if length lines < 3 then Inr None
      else
        (case py_int (lines ! 0) of
           None \<Rightarrow> caught ValueError
         | Some idx \<Rightarrow>
        (case match_time_line (lines ! 1) of
           None \<Rightarrow> Inr None
         | Some (g1, g2) \<Rightarrow>
        (case prs g1 of
           Inl e \<Rightarrow> caught e
         | Inr st \<Rightarrow>
        (case prs g2 of
           Inl e \<Rightarrow> caught e
         | Inr en \<Rightarrow>
            (let t = str_join_nl (drop 2 lines) in
             Inr (Some \<lparr>index = Some idx, start_time = Some st, end_time = Some en,
                        sentence_text = Some (case match_speaker_tag t of None \<Rightarrow> t | Some (spk, t') \<Rightarrow> t'),
                        speaker = Some (case match_speaker_tag t of None \<Rightarrow> [] | Some (spk, t') \<Rightarrow> spk),
                        duration = Some (en - st)\<rparr>)))))))"

fun parse_loop :: "(string \<Rightarrow> exn + real) \<Rightarrow> sentence list \<Rightarrow> string list \<Rightarrow> exn + sentence list" where
  "parse_loop prs acc [] = Inr acc"
| "parse_loop prs acc (block # blocks) =
     (case parse_block prs block of
        Inl e \<Rightarrow> Inl e
      | Inr None \<Rightarrow> parse_loop prs acc blocks
      | Inr (Some cue) \<Rightarrow> parse_loop prs (acc @ [cue]) blocks)"

definition parse_srt_content :: "(string \<Rightarrow> exn + real) \<Rightarrow> string \<Rightarrow> exn + sentence list" where
  "parse_srt_content prs content = parse_loop prs [] (re_split_blank (str_strip content))"

text \<open>
  The three defects of a block that the parser tests before it reads the times: fewer than
  three lines, an index line that \<open>int\<close> rejects, a second line without the time pattern.
\<close>

definition malformed_block :: "string \<Rightarrow> bool" where
  "malformed_block block =
     (length (str_split_nl (str_strip block)) < 3
      \<or> py_int (str_split_nl (str_strip block) ! 0) = None
      \<or> match_time_line (str_split_nl (str_strip block) ! 1) = None)"

text \<open>A cue as the parser builds it: both times present and the duration their difference.\<close>

definition timed_cue :: "sentence \<Rightarrow> bool" where
  "timed_cue c = (\<exists>st en. start_time c = Some st \<and> end_time c = Some en \<and> duration c = Some (en - st))"

text \<open>
  Two documents for the examples: a well-formed cue alone, and the same cue followed by a
  cue that lacks its timestamp line.
\<close>

definition clean_document :: string where
  "clean_document = ''1'' @ [nl] @ ''00:00:00,000 --> 00:00:01,500'' @ [nl] @ ''hello'' @ [nl]"

definition damaged_document :: string where
  "damaged_document = ''1'' @ [nl] @ ''00:00:00,000 --> 00:00:01,500'' @ [nl] @ ''hello'' @ [nl]
                        @ [nl] @ ''2'' @ [nl] @ ''world'' @ [nl]"

record parsed =
  parsed_sentences :: "sentence list"
  total_count :: nat

text \<open>
  \<open>parse_srt_file\<close>: \<open>file\<close> is the text of the file at the path, \<open>None\<close> when the
  path does not exist. Every exception becomes a failure result.
\<close>

definition parse_srt_file :: "(string \<Rightarrow> exn + real) \<Rightarrow> string option \<Rightarrow> parsed processing_result" where
  "parse_srt_file prs file =
     (case file of
        None \<Rightarrow> Failure SrtFileMissing
      | Some content \<Rightarrow>
          (case parse_srt_content prs content of
             Inl e \<Rightarrow> Failure (ParseFailed e)
           | Inr ss \<Rightarrow> Success \<lparr>parsed_sentences = ss, total_count = length ss\<rparr>))"

text \<open>
  The number of skipped blocks the spec speaks of, written from its words: the blocks of the
  document that did not become a cue.
\<close>

definition spec_skipped_count :: "(string \<Rightarrow> exn + real) \<Rightarrow> string \<Rightarrow> nat" where
  "spec_skipped_count prs content =
     length (filter (\<lambda>b. parse_block prs b = Inr None) (re_split_blank (str_strip content)))"

section \<open>Transcripts that survive the codec\<close>

text \<open>
  A blank line inside a string: a newline followed, after whitespace only, by another
  newline. This is where \<open>re.split(r'\n\s*\n', ...)\<close> cuts.
\<close>

fun has_blank_line :: "string \<Rightarrow> bool" where
  "has_blank_line [] = False"
| "has_blank_line (c # cs) = ((c = nl \<and> nl \<in> set (takeWhile is_space cs)) \<or> has_blank_line cs)"

text \<open>The text line of a cue when speaker tags are included.\<close>

definition tagged_text :: "sentence \<Rightarrow> string" where
  "tagged_text s =
     (if get_speaker s \<noteq> [] then ''['' @ get_speaker s @ ''] '' @ get_text s else get_text s)"

text \<open>A time that the two time helpers carry through the timestamp pattern unchanged.\<close>

definition codec_time :: "(real \<Rightarrow> string) \<Rightarrow> (string \<Rightarrow> exn + real) \<Rightarrow> real \<Rightarrow> bool" where
  "codec_time fmt prs t = (is_timestamp (fmt t) \<and> prs (fmt t) = Inr t)"

text \<open>
  The sentences for which writing and reading back is shown to give the same fields: the
  text is not empty and has no whitespace at either end, the emitted text line has no blank
  line inside, a sentence with a speaker has a single-line text and no closing bracket in
  the speaker, a sentence without a speaker has a text that does not itself start with a
  bracket tag, and both times pass through the time helpers unchanged.
\<close>

definition round_trips :: "(real \<Rightarrow> string) \<Rightarrow> (string \<Rightarrow> exn + real) \<Rightarrow> sentence \<Rightarrow> bool" where
  "round_trips fmt prs s =
     (get_text s \<noteq> [] \<and> str_strip (get_text s) = get_text s
      \<and> \<not> has_blank_line (tagged_text s)
      \<and> (if get_speaker s \<noteq> []
          then CHR '']'' \<notin> set (get_speaker s) \<and> nl \<notin> set (get_text s)
          else match_speaker_tag (get_text s) = None)
      \<and> codec_time fmt prs (get_start_time s) \<and> codec_time fmt prs (get_end_time s))"

text \<open>The cue the parser builds for the sentence written as block number \<open>i\<close>.\<close>

definition parsed_cue :: "nat \<Rightarrow> sentence \<Rightarrow> sentence" where
  "parsed_cue i s =
     \<lparr>index = Some (int i), start_time = Some (get_start_time s),
      end_time = Some (get_end_time s), sentence_text = Some (get_text s),
      speaker = Some (get_speaker s),
      duration = Some (get_end_time s - get_start_time s)\<rparr>"

text \<open>The block of one cue in the written file, and blocks separated by an empty line.\<close>

definition cue_block :: "(real \<Rightarrow> string) \<Rightarrow> nat \<Rightarrow> sentence \<Rightarrow> string" where
  "cue_block fmt i s =
     str_nat i @ nl # (fmt (get_start_time s) @ '' --> '' @ fmt (get_end_time s)) @ nl # tagged_text s"

fun join_blocks :: "string list \<Rightarrow> string" where
  "join_blocks [] = []"
| "join_blocks [b] = b"
| "join_blocks (b # b' # bs) = b @ nl # nl # join_blocks (b' # bs)"

definition clean_block :: "string \<Rightarrow> bool" where
  "clean_block b = (b \<noteq> [] \<and> \<not> is_space (hd b) \<and> \<not> is_space (last b) \<and> \<not> has_blank_line b)"

text \<open>
  A transcript for the examples: three utterances, two speakers, one text of two sentences.
\<close>

definition sample_transcript :: "sentence list" where
  "sample_transcript =
     [\<lparr>index = None, start_time = Some 0, end_time = Some 1.5,
       sentence_text = Some ''Hello. How are you?'', speaker = Some ''spk0'', duration = None\<rparr>,
      \<lparr>index = None, start_time = Some 1.5, end_time = Some 3,
       sentence_text = Some ''Fine.'', speaker = Some ''spk1'', duration = None\<rparr>,
      \<lparr>index = None, start_time = Some 3, end_time = Some 3661.25,
       sentence_text = Some ''Good'', speaker = Some ''spk0'', duration = None\<rparr>]"

section \<open>SubtitleProcessor.filter_by_speaker\<close>

text \<open>
  \<open>kwargs.get("speakers", [])\<close> is a single name or a collection of names; an absent
  argument is the empty collection.
\<close>

datatype speakers_arg = SpeakerName string | SpeakerList "string list"

record filtered =
  filtered_sentences :: "sentence list"
  original_count :: nat
  filtered_count :: nat
  target_speakers :: "string list"

fun filter_loop :: "string list \<Rightarrow> sentence list \<Rightarrow> sentence list \<Rightarrow> sentence list" where
  "filter_loop target acc [] = acc"
| "filter_loop target acc (s # rest) =
     filter_loop target (if get_speaker s \<in> set target then acc @ [s] else acc) rest"

definition filter_by_speaker :: "sentence list \<Rightarrow> speakers_arg \<Rightarrow> filtered processing_result" where
  "filter_by_speaker ss arg =
     (if (case arg of SpeakerName n \<Rightarrow> n = [] | SpeakerList l \<Rightarrow> l = [])
      then Failure MissingTargetSpeakers
      else
        (let target = (case arg of SpeakerName n \<Rightarrow> [n] | SpeakerList l \<Rightarrow> l);
             kept = filter_loop target [] ss
         in Success \<lparr>filtered_sentences = kept, original_count = length ss,
                      filtered_count = length kept, target_speakers = target\<rparr>))"

section \<open>Time model\<close>

text \<open>
  Modelled from the spec: the bodies of \<open>_seconds_to_srt_time\<close> and
  \<open>_srt_time_to_seconds\<close> are absent from the source. \<open>format_timestamp\<close> truncates a
  non-negative time to milliseconds and prints \<open>HH:MM:SS,mmm\<close>, zero-padded, hours to at
  least two digits.
\<close>

definition pad2 :: "nat \<Rightarrow> string" where
  "pad2 n = (if n < 10 then CHR ''0'' # str_nat n else str_nat n)"

definition pad3 :: "nat \<Rightarrow> string" where
  "pad3 n = (if n < 10 then ''00'' @ str_nat n else if n < 100 then CHR ''0'' # str_nat n else str_nat n)"

definition format_timestamp :: "real \<Rightarrow> string" where
  "format_timestamp t =
     (let ms = nat \<lfloor>t * 1000\<rfloor> in
      pad2 (ms div 3600000) @ '':'' @ pad2 (ms div 60000 mod 60) @ '':''
        @ pad2 (ms div 1000 mod 60) @ '','' @ pad3 (ms mod 1000))"

text \<open>
  Modelled from the spec: \<open>parse_timestamp\<close> accepts exactly the fixed format
  \<open>HH:MM:SS,mmm\<close> and fails with \<open>FormatError\<close> when the pattern does not match or the
  minutes or seconds are above 59 (three digits of milliseconds are always within 0 to 999).
\<close>

definition ts_hours :: "string \<Rightarrow> nat" where
  "ts_hours s = digits_value (take 2 s)"

definition ts_minutes :: "string \<Rightarrow> nat" where
  "ts_minutes s = digits_value (take 2 (drop 3 s))"

definition ts_seconds :: "string \<Rightarrow> nat" where
  "ts_seconds s = digits_value (take 2 (drop 6 s))"

definition ts_millis :: "string \<Rightarrow> nat" where
  "ts_millis s = digits_value (take 3 (drop 9 s))"

definition well_formed_timestamp :: "string \<Rightarrow> bool" where
  "well_formed_timestamp s = (is_timestamp s \<and> ts_minutes s \<le> 59 \<and> ts_seconds s \<le> 59)"

definition parse_timestamp :: "string \<Rightarrow> exn + real" where
  "parse_timestamp s =
     (if well_formed_timestamp s
      then Inr (real (ts_hours s * 3600 + ts_minutes s * 60 + ts_seconds s) + real (ts_millis s) / 1000)
      else Inl FormatError)"

text \<open>
  Modelled from the spec: a body for the absent helper \<open>_srt_time_to_seconds\<close>. It is the
  spec's \<open>parse_timestamp\<close>, its \<open>FormatError\<close> raised as a \<open>ValueError\<close>, which the
  parser's \<open>except\<close> clause names, so that a malformed timestamp drops its block only.
\<close>

definition srt_time_to_seconds :: "string \<Rightarrow> exn + real" where
  "srt_time_to_seconds s = (case parse_timestamp s of Inl e \<Rightarrow> Inl ValueError | Inr t \<Rightarrow> Inr t)"

section \<open>Segment merger\<close>

text \<open>
  Modelled from the spec: the source of \<open>merge_segments\<close> stops after the start of its
  loop, so the pass is written from section 4.4 of the spec. An utterance has a start, an
  end, a text and an optional speaker.
\<close>

record utterance =
  u_start :: real
  u_end :: real
  u_text :: string
  u_speaker :: "string option"

definition can_merge :: "real \<Rightarrow> real \<Rightarrow> utterance \<Rightarrow> utterance \<Rightarrow> bool" where
  "can_merge max_gap max_duration acc u =
     (u_speaker u = u_speaker acc \<and> u_start u - u_end acc \<le> max_gap
        \<and> u_end u - u_start acc \<le> max_duration)"

definition merge_into :: "utterance \<Rightarrow> utterance \<Rightarrow> utterance" where
  "merge_into acc u = acc\<lparr>u_end := u_end u, u_text := u_text acc @ '' '' @ u_text u\<rparr>"

fun merge_pass :: "real \<Rightarrow> real \<Rightarrow> utterance \<Rightarrow> utterance list \<Rightarrow> utterance list" where
  "merge_pass max_gap max_duration acc [] = [acc]"
| "merge_pass max_gap max_duration acc (u # us) =
     (if can_merge max_gap max_duration acc u
      then merge_pass max_gap max_duration (merge_into acc u) us
      else acc # merge_pass max_gap max_duration u us)"

definition merge_segments :: "real \<Rightarrow> real \<Rightarrow> utterance list \<Rightarrow> utterance list" where
  "merge_segments max_gap max_duration us =
     (case us of [] \<Rightarrow> [] | u # rest \<Rightarrow> merge_pass max_gap max_duration u rest)"

text \<open>
  The same pass, keeping for every cue the utterances that went into it: \<open>grp\<close> is the
  list of utterances merged into the open accumulator so far.
\<close>

fun merge_groups :: "real \<Rightarrow> real \<Rightarrow> utterance \<Rightarrow> utterance list \<Rightarrow> utterance list \<Rightarrow> utterance list list" where
  "merge_groups max_gap max_duration acc grp [] = [grp]"
| "merge_groups max_gap max_duration acc grp (u # us) =
     (if can_merge max_gap max_duration acc u
      then merge_groups max_gap max_duration (merge_into acc u) (grp @ [u]) us
      else grp # merge_groups max_gap max_duration u [u] us)"

definition cue_of_group :: "utterance list \<Rightarrow> utterance" where
  "cue_of_group grp = foldl merge_into (hd grp) (tl grp)"

definition merge_segment_groups :: "real \<Rightarrow> real \<Rightarrow> utterance list \<Rightarrow> utterance list list" where
  "merge_segment_groups max_gap max_duration us =
     (case us of [] \<Rightarrow> [] | u # rest \<Rightarrow> merge_groups max_gap max_duration u [u] rest)"

section \<open>Properties of the overlap resolver\<close>

lemma inner_fold_flat:
  "foldl (segment_step st en sid) acc ss = foldl (best_step st en) acc (map (Pair sid) ss)"
  by (induction ss arbitrary: acc) (simp_all add: best_step_def)

lemma speaker_fold_flat:
  "foldl (speaker_step st en) acc segs = foldl (best_step st en) acc (flat_spans segs)"
  by (induction segs arbitrary: acc)
     (simp_all add: flat_spans_def speaker_step_def inner_fold_flat)

lemma best_fold_unchanged:
  "\<forall>p \<in> set ps. overlap st en (snd p) \<le> fst acc \<Longrightarrow> foldl (best_step st en) acc ps = acc"
  by (induction ps arbitrary: acc) (simp_all add: best_step_def segment_step_def)

lemma best_fold_first_max:
  "\<exists>p \<in> set ps. overlap st en (snd p) > fst acc \<Longrightarrow>
   \<exists>i < length ps. foldl (best_step st en) acc ps = (overlap st en (snd (ps ! i)), fst (ps ! i))
      \<and> fst acc < overlap st en (snd (ps ! i))
      \<and> (\<forall>j < i. overlap st en (snd (ps ! j)) < overlap st en (snd (ps ! i)))
      \<and> (\<forall>j < length ps. overlap st en (snd (ps ! j)) \<le> overlap st en (snd (ps ! i)))"
proof (induction ps rule: rev_induct)
  case Nil
  then show ?case by simp
next
  case (snoc p ps)
  let ?ov = "\<lambda>q. overlap st en (snd q)"
  show ?case
  proof (cases "\<exists>q \<in> set ps. ?ov q > fst acc")
    case True
    from snoc.IH [OF True] obtain i where i: "i < length ps"
      and eq: "foldl (best_step st en) acc ps = (?ov (ps ! i), fst (ps ! i))"
      and gt: "fst acc < ?ov (ps ! i)"
      and before: "\<forall>j < i. ?ov (ps ! j) < ?ov (ps ! i)"
      and all: "\<forall>j < length ps. ?ov (ps ! j) \<le> ?ov (ps ! i)"
      by blast
    show ?thesis
    proof (cases "?ov p > ?ov (ps ! i)")
      case True
      have "foldl (best_step st en) acc (ps @ [p]) = (?ov p, fst p)"
        using True eq by (simp add: best_step_def segment_step_def)
      moreover have "\<forall>j < length ps. ?ov (ps ! j) < ?ov p"
        using all True by (meson le_less_trans)
      ultimately show ?thesis
        using gt True
        by (intro exI [of _ "length ps"]) (auto simp: nth_append less_Suc_eq)
    next
      case False
      have "foldl (best_step st en) acc (ps @ [p]) = (?ov (ps ! i), fst (ps ! i))"
        using False eq by (simp add: best_step_def segment_step_def)
      then show ?thesis
        using i gt before all False
        by (intro exI [of _ i]) (auto simp: nth_append less_Suc_eq)
    qed
  next
    case False
    then have le: "\<forall>q \<in> set ps. ?ov q \<le> fst acc" by fastforce
    then have same: "foldl (best_step st en) acc ps = acc"
      by (rule best_fold_unchanged)
    from snoc.prems False have pgt: "?ov p > fst acc" by auto
    have "foldl (best_step st en) acc (ps @ [p]) = (?ov p, fst p)"
      using same pgt by (simp add: best_step_def segment_step_def)
    moreover have "\<forall>j < length ps. ?ov (ps ! j) < ?ov p"
      using le pgt by (meson le_less_trans nth_mem)
    ultimately show ?thesis
      using pgt
      by (intro exI [of _ "length ps"]) (auto simp: nth_append less_Suc_eq)
  qed
qed

lemma flat_spans_Cons:
  "flat_spans (item # rest) = map (Pair (fst item)) (snd item) @ flat_spans rest"
  by (simp add: flat_spans_def)

lemma flat_spans_set:
  "set (flat_spans segs) = {(sid, seg). \<exists>ss. (sid, ss) \<in> set segs \<and> seg \<in> set ss}"
  by (induction segs) (auto simp: flat_spans_Cons flat_spans_def)

lemma flat_spans_mem:
  "item \<in> set segs \<Longrightarrow> seg \<in> set (snd item) \<Longrightarrow> (fst item, seg) \<in> set (flat_spans segs)"
  by (induction segs) (auto simp: flat_spans_Cons flat_spans_def)

lemma flat_spans_index:
  "i < length (flat_spans segs) \<Longrightarrow>
   \<exists>k < length segs. fst (flat_spans segs ! i) = fst (segs ! k)
      \<and> snd (flat_spans segs ! i) \<in> set (snd (segs ! k))
      \<and> (\<forall>k' < k. \<forall>seg' \<in> set (snd (segs ! k')). \<exists>j < i. snd (flat_spans segs ! j) = seg')"
proof (induction segs arbitrary: i)
  case Nil
  then show ?case by (simp add: flat_spans_def)
next
  case (Cons item rest)
  let ?own = "map (Pair (fst item)) (snd item)"
  show ?case
  proof (cases "i < length (snd item)")
    case True
    then have "flat_spans (item # rest) ! i = (fst item, snd item ! i)"
      by (simp add: flat_spans_Cons nth_append)
    with True show ?thesis by (intro exI [of _ 0]) simp
  next
    case False
    define i' where "i' = i - length (snd item)"
    have i: "i = length (snd item) + i'" using False by (simp add: i'_def)
    have i'_lt: "i' < length (flat_spans rest)"
      using Cons.prems i by (simp add: flat_spans_Cons)
    have shift: "\<And>j. flat_spans (item # rest) ! (length (snd item) + j) = flat_spans rest ! j"
      by (simp add: flat_spans_Cons nth_append)
    from Cons.IH [OF i'_lt] obtain k where k: "k < length rest"
      and f: "fst (flat_spans rest ! i') = fst (rest ! k)"
      and m: "snd (flat_spans rest ! i') \<in> set (snd (rest ! k))"
      and b: "\<forall>k' < k. \<forall>seg' \<in> set (snd (rest ! k')). \<exists>j < i'. snd (flat_spans rest ! j) = seg'"
      by blast
    have "\<exists>j < i. snd (flat_spans (item # rest) ! j) = seg'"
      if k': "k' < Suc k" and mem: "seg' \<in> set (snd ((item # rest) ! k'))" for k' seg'
    proof (cases k')
      case 0
      with mem obtain j where j: "j < length (snd item)" "snd item ! j = seg'"
        by (auto simp: in_set_conv_nth)
      then have "snd (flat_spans (item # rest) ! j) = seg'"
        by (simp add: flat_spans_Cons nth_append)
      moreover have "j < i" using j False by simp
      ultimately show ?thesis by blast
    next
      case (Suc k'')
      with k' mem b obtain j where j: "j < i'" "snd (flat_spans rest ! j) = seg'"
        by auto
      then have "snd (flat_spans (item # rest) ! (length (snd item) + j)) = seg'"
        by (simp add: shift)
      moreover have "length (snd item) + j < i" using j i by simp
      ultimately show ?thesis by blast
    qed
    then show ?thesis
      using k f m i shift [of i']
      by (intro exI [of _ "Suc k"]) simp
  qed
qed

lemma find_speaker_flat:
  "find_speaker_for_time st en segs = snd (foldl (best_step st en) (0, ''spk0'') (flat_spans segs))"
  by (simp add: find_speaker_for_time_def speaker_fold_flat)


text \<open>
  Claim C2, as the code has it: whenever some span overlaps the utterance by a positive
  amount, the returned speaker owns a span whose own overlap
  \<open>min(end, span.end) - max(start, span.start)\<close> is positive and is at least the overlap
  of every span of every speaker. The overlaps of one speaker's spans are not added up.
\<close>

theorem find_speaker_max_single_span:
  assumes "(sid, ss) \<in> set segs" and "seg \<in> set ss" and "0 < overlap st en seg"
  shows "\<exists>ss' seg'. (find_speaker_for_time st en segs, ss') \<in> set segs \<and> seg' \<in> set ss'
           \<and> 0 < overlap st en seg'
           \<and> (\<forall>item \<in> set segs. \<forall>seg'' \<in> set (snd item). overlap st en seg'' \<le> overlap st en seg')"
proof -
  let ?ps = "flat_spans segs"
  have "(sid, seg) \<in> set ?ps" using assms(1,2) by (auto simp: flat_spans_set)
  then have "\<exists>p \<in> set ?ps. overlap st en (snd p) > fst (0::real, ''spk0'')"
    using assms(3) by force
  from best_fold_first_max [OF this] obtain i where i: "i < length ?ps"
    and eq: "foldl (best_step st en) (0, ''spk0'') ?ps = (overlap st en (snd (?ps ! i)), fst (?ps ! i))"
    and pos: "0 < overlap st en (snd (?ps ! i))"
    and all: "\<forall>j < length ?ps. overlap st en (snd (?ps ! j)) \<le> overlap st en (snd (?ps ! i))"
    by auto
  have res: "find_speaker_for_time st en segs = fst (?ps ! i)"
    by (simp add: find_speaker_flat eq)
  have "?ps ! i \<in> set ?ps" using i by simp
  then obtain ss' where ss': "(fst (?ps ! i), ss') \<in> set segs" "snd (?ps ! i) \<in> set ss'"
    by (auto simp: flat_spans_set)
  have le: "overlap st en seg'' \<le> overlap st en (snd (?ps ! i))"
    if "item \<in> set segs" "seg'' \<in> set (snd item)" for item seg''
  proof -
    have "(fst item, seg'') \<in> set ?ps" using that by (rule flat_spans_mem)
    then obtain j where j: "j < length ?ps" "?ps ! j = (fst item, seg'')"
      by (auto simp: in_set_conv_nth)
    from all j(1) have "overlap st en (snd (?ps ! j)) \<le> overlap st en (snd (?ps ! i))"
      by blast
    then show ?thesis by (simp add: j(2))
  qed
  have "(fst (?ps ! i), ss') \<in> set segs \<and> snd (?ps ! i) \<in> set ss'
           \<and> 0 < overlap st en (snd (?ps ! i))
           \<and> (\<forall>item \<in> set segs. \<forall>seg'' \<in> set (snd item).
                 overlap st en seg'' \<le> overlap st en (snd (?ps ! i)))"
    using ss' pos le by simp
  then show ?thesis unfolding res by (intro exI [of _ ss'] exI [of _ "snd (?ps ! i)"])
qed

theorem find_speaker_max_single_span_witness:
  "(''A'', [mk_segment 0 3, mk_segment 6 9]) \<in> set [(''A'', [mk_segment 0 3, mk_segment 6 9]), (''B'', [mk_segment 2 6])]
   \<and> mk_segment 0 3 \<in> set [mk_segment 0 3, mk_segment 6 9]
   \<and> 0 < overlap 0 10 (mk_segment 0 3)
   \<and> (\<exists>ss' seg'.
         (find_speaker_for_time 0 10 [(''A'', [mk_segment 0 3, mk_segment 6 9]), (''B'', [mk_segment 2 6])], ss')
            \<in> set [(''A'', [mk_segment 0 3, mk_segment 6 9]), (''B'', [mk_segment 2 6])]
         \<and> seg' \<in> set ss' \<and> 0 < overlap 0 10 seg'
         \<and> (\<forall>item \<in> set [(''A'', [mk_segment 0 3, mk_segment 6 9]), (''B'', [mk_segment 2 6])].
               \<forall>seg'' \<in> set (snd item). overlap 0 10 seg'' \<le> overlap 0 10 seg'))"
proof -
  have h1: "(''A'', [mk_segment 0 3, mk_segment 6 9])
            \<in> set [(''A'', [mk_segment 0 3, mk_segment 6 9]), (''B'', [mk_segment 2 6])]"
    by simp
  have h2: "mk_segment 0 3 \<in> set [mk_segment 0 3, mk_segment 6 9]" by simp
  have h3: "0 < overlap 0 10 (mk_segment 0 3)" by (simp add: overlap_def mk_segment_def)
  show ?thesis
    using h1 h2 h3 find_speaker_max_single_span [OF h1 h2 h3] by blast
qed

text \<open>
  Claim C2 as stated fails: for the utterance \<open>[0, 10]\<close>, speaker A with spans
  \<open>[0, 3]\<close> and \<open>[6, 9]\<close> has the larger total overlap, and speaker B, whose single
  span \<open>[2, 6]\<close> overlaps more than either span of A, is returned.
\<close>

theorem find_speaker_total_overlap_counterexample:
  "spec_total_overlap 0 10 [mk_segment 2 6] < spec_total_overlap 0 10 [mk_segment 0 3, mk_segment 6 9]
   \<and> find_speaker_for_time 0 10 [(''A'', [mk_segment 0 3, mk_segment 6 9]), (''B'', [mk_segment 2 6])] = ''B''"
  by (simp add: spec_total_overlap_def find_speaker_for_time_def speaker_step_def segment_step_def
        overlap_def mk_segment_def)

text \<open>
  Claim C6, as the code has it: when no span overlaps the utterance by a positive amount the
  default identifier \<open>spk0\<close> is returned; otherwise the result is the first speaker, in
  iteration order, that owns a span of maximal overlap: every span of every earlier speaker
  overlaps strictly less.
\<close>

theorem find_speaker_default_and_first_wins:
  "if (\<forall>item \<in> set segs. \<forall>seg \<in> set (snd item). overlap st en seg \<le> 0)
   then find_speaker_for_time st en segs = ''spk0''
   else (\<exists>k < length segs. \<exists>seg \<in> set (snd (segs ! k)).
           find_speaker_for_time st en segs = fst (segs ! k)
         \<and> 0 < overlap st en seg
         \<and> (\<forall>item \<in> set segs. \<forall>seg' \<in> set (snd item). overlap st en seg' \<le> overlap st en seg)
         \<and> (\<forall>k' < k. \<forall>seg' \<in> set (snd (segs ! k')). overlap st en seg' < overlap st en seg))"
proof (cases "\<forall>item \<in> set segs. \<forall>seg \<in> set (snd item). overlap st en seg \<le> 0")
  case True
  then have "\<forall>p \<in> set (flat_spans segs). overlap st en (snd p) \<le> fst (0::real, ''spk0'')"
    by (auto simp: flat_spans_set)
  then have "foldl (best_step st en) (0, ''spk0'') (flat_spans segs) = (0, ''spk0'')"
    by (rule best_fold_unchanged)
  with True show ?thesis by (simp add: find_speaker_flat)
next
  case False
  let ?ps = "flat_spans segs"
  from False obtain item seg where "item \<in> set segs" "seg \<in> set (snd item)" "0 < overlap st en seg"
    by (auto simp: not_le)
  then have "(fst item, seg) \<in> set ?ps" by (simp add: flat_spans_mem)
  then have "\<exists>p \<in> set ?ps. overlap st en (snd p) > fst (0::real, ''spk0'')"
    using \<open>0 < overlap st en seg\<close> by force
  from best_fold_first_max [OF this] obtain i where i: "i < length ?ps"
    and eq: "foldl (best_step st en) (0, ''spk0'') ?ps = (overlap st en (snd (?ps ! i)), fst (?ps ! i))"
    and pos: "0 < overlap st en (snd (?ps ! i))"
    and before: "\<forall>j < i. overlap st en (snd (?ps ! j)) < overlap st en (snd (?ps ! i))"
    and all: "\<forall>j < length ?ps. overlap st en (snd (?ps ! j)) \<le> overlap st en (snd (?ps ! i))"
    by auto
  from flat_spans_index [OF i] obtain k where k: "k < length segs"
    and f: "fst (?ps ! i) = fst (segs ! k)"
    and m: "snd (?ps ! i) \<in> set (snd (segs ! k))"
    and b: "\<forall>k' < k. \<forall>seg' \<in> set (snd (segs ! k')). \<exists>j < i. snd (?ps ! j) = seg'"
    by blast
  have le: "overlap st en seg'' \<le> overlap st en (snd (?ps ! i))"
    if "item \<in> set segs" "seg'' \<in> set (snd item)" for item seg''
  proof -
    have "(fst item, seg'') \<in> set ?ps" using that by (rule flat_spans_mem)
    then obtain j where j: "j < length ?ps" "?ps ! j = (fst item, seg'')"
      by (auto simp: in_set_conv_nth)
    from all j(1) have "overlap st en (snd (?ps ! j)) \<le> overlap st en (snd (?ps ! i))"
      by blast
    then show ?thesis by (simp add: j(2))
  qed
  have lt: "overlap st en seg' < overlap st en (snd (?ps ! i))"
    if "k' < k" "seg' \<in> set (snd (segs ! k'))" for k' seg'
  proof -
    from b that obtain j where "j < i" "snd (?ps ! j) = seg'" by blast
    with before show ?thesis by auto
  qed
  have res: "find_speaker_for_time st en segs = fst (segs ! k)"
    by (simp add: find_speaker_flat eq f)
  have "find_speaker_for_time st en segs = fst (segs ! k)
         \<and> 0 < overlap st en (snd (?ps ! i))
         \<and> (\<forall>item \<in> set segs. \<forall>seg' \<in> set (snd item). overlap st en seg' \<le> overlap st en (snd (?ps ! i)))
         \<and> (\<forall>k' < k. \<forall>seg' \<in> set (snd (segs ! k')). overlap st en seg' < overlap st en (snd (?ps ! i)))"
    using res pos le lt by simp
  with m have "\<exists>seg \<in> set (snd (segs ! k)).
           find_speaker_for_time st en segs = fst (segs ! k)
         \<and> 0 < overlap st en seg
         \<and> (\<forall>item \<in> set segs. \<forall>seg' \<in> set (snd item). overlap st en seg' \<le> overlap st en seg)
         \<and> (\<forall>k' < k. \<forall>seg' \<in> set (snd (segs ! k')). overlap st en seg' < overlap st en seg)"
    by (rule bexI [rotated])
  with k have ex: "\<exists>k < length segs. \<exists>seg \<in> set (snd (segs ! k)).
           find_speaker_for_time st en segs = fst (segs ! k)
         \<and> 0 < overlap st en seg
         \<and> (\<forall>item \<in> set segs. \<forall>seg' \<in> set (snd item). overlap st en seg' \<le> overlap st en seg)
         \<and> (\<forall>k' < k. \<forall>seg' \<in> set (snd (segs ! k')). overlap st en seg' < overlap st en seg)"
    by (intro exI [of _ k] conjI)
  show ?thesis unfolding if_not_P [OF False] by (rule ex)
qed

theorem find_speaker_default_and_first_wins_witness:
  "find_speaker_for_time 100 110 [(''A'', [mk_segment 0 5]), (''B'', [mk_segment 5 20])] = ''spk0''
   \<and> find_speaker_for_time 0 10 [(''A'', [mk_segment 0 2, mk_segment 2 4]), (''B'', [mk_segment 5 9])] = ''B''"
proof -
  have 1: "find_speaker_for_time 100 110 [(''A'', [mk_segment 0 5]), (''B'', [mk_segment 5 20])] = ''spk0''"
    using find_speaker_default_and_first_wins
          [of "[(''A'', [mk_segment 0 5]), (''B'', [mk_segment 5 20])]" 100 110]
    by (simp add: overlap_def mk_segment_def)
  have 2: "find_speaker_for_time 0 10 [(''A'', [mk_segment 0 2, mk_segment 2 4]), (''B'', [mk_segment 5 9])] = ''B''"
    using find_speaker_default_and_first_wins
          [of "[(''A'', [mk_segment 0 2, mk_segment 2 4]), (''B'', [mk_segment 5 9])]" 0 10]
    by (auto simp: overlap_def mk_segment_def less_Suc_eq numeral_2_eq_2)
  show ?thesis using 1 2 by blast
qed

text \<open>
  Claim C6 as stated fails twice. The default identifier is also returned when the overlap is
  positive, for a speaker who is named \<open>spk0\<close>; and when two speakers tie for the total
  overlap (here 4 each), the later one is returned if one of its spans is the longest.
\<close>

theorem find_speaker_sentinel_counterexample:
  "find_speaker_for_time 0 10 [(''spk0'', [mk_segment 0 10])] = ''spk0''
   \<and> spec_total_overlap 0 10 [mk_segment 0 10] = 10
   \<and> spec_total_overlap 0 10 [mk_segment 0 2, mk_segment 2 4] = spec_total_overlap 0 10 [mk_segment 5 9]
   \<and> find_speaker_for_time 0 10 [(''A'', [mk_segment 0 2, mk_segment 2 4]), (''B'', [mk_segment 5 9])] = ''B''"
  by (simp add: spec_total_overlap_def find_speaker_for_time_def speaker_step_def segment_step_def
        overlap_def mk_segment_def)

section \<open>Properties of fusion\<close>

lemma combine_loop_well_formed:
  "speaker_segments sr = Some segs \<Longrightarrow> \<forall>s \<in> set ss. well_formed_sentence s \<Longrightarrow>
   combine_loop sr ss = Inr (map (label_sentence segs) ss)"
  by (induction ss)
     (auto simp: combine_sentence_def well_formed_sentence_def label_sentence_def)

text \<open>
  Claim C5, as the code has it: when the diarization result has its \<open>speaker_segments\<close>
  and every sentence has a start and an end time, \<open>combine_with_asr\<close> returns a result (it
  raises nothing) whose sentences are the input sentences in the same order and number, each
  with its speaker set by the overlap resolver. No sentence is dropped, whatever its duration.
\<close>

theorem combine_with_asr_labels_every_sentence:
  assumes "speaker_segments sr = Some segs"
    and "\<forall>s \<in> set (asr_sentences ar). well_formed_sentence s"
  shows "\<exists>c. combine_with_asr ar sr = Inr c
           \<and> combined_sentences c = map (label_sentence segs) (asr_sentences ar)
           \<and> length (combined_sentences c) = length (asr_sentences ar)
           \<and> (\<forall>s \<in> set (combined_sentences c). speaker s \<noteq> None)"
  using combine_loop_well_formed [OF assms]
  by (auto simp: combine_with_asr_def label_sentence_def)

theorem combine_with_asr_labels_every_sentence_witness:
  "speaker_segments \<lparr>speaker_segments = Some [(''A'', [mk_segment 0 10])]\<rparr> = Some [(''A'', [mk_segment 0 10])]
   \<and> (\<exists>c. combine_with_asr
            \<lparr>sentences = Some [\<lparr>index = None, start_time = Some 1, end_time = Some 4,
                                sentence_text = Some ''hello'', speaker = None, duration = None\<rparr>]\<rparr>
            \<lparr>speaker_segments = Some [(''A'', [mk_segment 0 10])]\<rparr> = Inr c
          \<and> map speaker (combined_sentences c) = [Some ''A''])"
proof -
  let ?sr = "\<lparr>speaker_segments = Some [(''A'', [mk_segment 0 10])]\<rparr>"
  let ?ar = "\<lparr>sentences = Some [\<lparr>index = None, start_time = Some 1, end_time = Some 4,
                                sentence_text = Some ''hello'', speaker = None, duration = None\<rparr>]\<rparr>"
  have h1: "speaker_segments ?sr = Some [(''A'', [mk_segment 0 10])]" by simp
  have h2: "\<forall>s \<in> set (asr_sentences ?ar). well_formed_sentence s"
    by (simp add: asr_sentences_def well_formed_sentence_def)
  have ev: "find_speaker_for_time 1 4 [(''A'', [mk_segment 0 10])] = ''A''"
    by (simp add: find_speaker_for_time_def speaker_step_def segment_step_def overlap_def mk_segment_def)
  from combine_with_asr_labels_every_sentence [OF h1 h2]
  show ?thesis by (auto simp: asr_sentences_def label_sentence_def ev)
qed

text \<open>
  Claim C5 as stated fails: a sentence of zero duration is not dropped; it is returned with
  the default speaker.
\<close>

theorem combine_with_asr_zero_duration_counterexample:
  "combine_with_asr
     \<lparr>sentences = Some [\<lparr>index = None, start_time = Some 5, end_time = Some 5,
                         sentence_text = Some ''hi'', speaker = None, duration = None\<rparr>]\<rparr>
     \<lparr>speaker_segments = Some [(''A'', [mk_segment 0 10])]\<rparr>
   = Inr \<lparr>combined_sentences =
            [\<lparr>index = None, start_time = Some 5, end_time = Some 5,
              sentence_text = Some ''hi'', speaker = Some ''spk0'', duration = None\<rparr>],
          speaker_info = \<lparr>speaker_segments = Some [(''A'', [mk_segment 0 10])]\<rparr>,
          asr_info = \<lparr>sentences = Some
            [\<lparr>index = None, start_time = Some 5, end_time = Some 5,
              sentence_text = Some ''hi'', speaker = Some ''spk0'', duration = None\<rparr>]\<rparr>\<rparr>"
  by (simp add: combine_with_asr_def asr_sentences_def combine_sentence_def
        find_speaker_for_time_def speaker_step_def segment_step_def overlap_def mk_segment_def)

section \<open>Evaluation of digits\<close>

lemma digit_char_table:
  "digit_char 0 = CHR ''0''" "digit_char 1 = CHR ''1''" "digit_char 2 = CHR ''2''"
  "digit_char 3 = CHR ''3''" "digit_char 4 = CHR ''4''" "digit_char 5 = CHR ''5''"
  "digit_char 6 = CHR ''6''" "digit_char 7 = CHR ''7''" "digit_char 8 = CHR ''8''"
  "digit_char 9 = CHR ''9''"
  by (simp_all add: digit_char_def char_of_def bit_Suc_0_iff)

lemma digit_char_Suc_0: "digit_char (Suc 0) = CHR ''1''" "digit_char (Suc (Suc 0)) = CHR ''2''"
  using digit_char_table(2,3) by (simp_all only: One_nat_def numeral_2_eq_2)

section \<open>Properties of the speaker filter\<close>

lemma filter_loop_filter:
  "filter_loop target acc ss = acc @ filter (\<lambda>s. get_speaker s \<in> set target) ss"
  by (induction ss arbitrary: acc) simp_all

text \<open>
  Claim C9: with an empty collection of wanted speakers the filter returns a failure result,
  not a transcript; with a non-empty one it succeeds and keeps exactly the sentences whose
  speaker is wanted, in their order, so that the transcript comes back unchanged when every
  sentence's speaker is wanted.
\<close>

theorem filter_by_speaker_empty_fails_nonempty_keeps:
  "filter_by_speaker ss (SpeakerList []) = Failure MissingTargetSpeakers
   \<and> (l \<noteq> [] \<longrightarrow>
        (\<exists>r. filter_by_speaker ss (SpeakerList l) = Success r
           \<and> filtered_sentences r = filter (\<lambda>s. get_speaker s \<in> set l) ss
           \<and> ((\<forall>s \<in> set ss. get_speaker s \<in> set l) \<longrightarrow> filtered_sentences r = ss)))"
  by (auto simp: filter_by_speaker_def filter_loop_filter Let_def)

theorem filter_by_speaker_empty_fails_nonempty_keeps_witness:
  "filter_by_speaker
     [\<lparr>index = None, start_time = Some 0, end_time = Some 1, sentence_text = Some ''a'',
       speaker = Some ''A'', duration = None\<rparr>,
      \<lparr>index = None, start_time = Some 1, end_time = Some 2, sentence_text = Some ''b'',
       speaker = Some ''B'', duration = None\<rparr>] (SpeakerList []) = Failure MissingTargetSpeakers
   \<and> (\<exists>r. filter_by_speaker
            [\<lparr>index = None, start_time = Some 0, end_time = Some 1, sentence_text = Some ''a'',
              speaker = Some ''A'', duration = None\<rparr>,
             \<lparr>index = None, start_time = Some 1, end_time = Some 2, sentence_text = Some ''b'',
              speaker = Some ''B'', duration = None\<rparr>] (SpeakerList [''A'', ''B'']) = Success r
          \<and> filtered_sentences r =
            [\<lparr>index = None, start_time = Some 0, end_time = Some 1, sentence_text = Some ''a'',
              speaker = Some ''A'', duration = None\<rparr>,
             \<lparr>index = None, start_time = Some 1, end_time = Some 2, sentence_text = Some ''b'',
              speaker = Some ''B'', duration = None\<rparr>])"
  using filter_by_speaker_empty_fails_nonempty_keeps
    [of "[\<lparr>index = None, start_time = Some 0, end_time = Some 1, sentence_text = Some ''a'',
           speaker = Some ''A'', duration = None\<rparr>,
          \<lparr>index = None, start_time = Some 1, end_time = Some 2, sentence_text = Some ''b'',
           speaker = Some ''B'', duration = None\<rparr>]" "[''A'', ''B'']"]
  by (simp add: get_speaker_def)

section \<open>Properties of SRT generation\<close>

lemma srt_loop_concat:
  "srt_loop fmt inc acc ps = acc @ concat (map (\<lambda>(i, s). cue_lines fmt inc i s) ps)"
  by (induction ps arbitrary: acc) auto

lemma index_lines_cue:
  "index_lines (cue_lines fmt inc i s @ rest) =
     (if str_strip (get_text s) = [] then index_lines rest else str_nat i # index_lines rest)"
  by (simp add: cue_lines_def Let_def)

lemma index_lines_srt:
  "index_lines (concat (map (\<lambda>(i, s). cue_lines fmt inc i s) ps)) =
     map (\<lambda>(i, s). str_nat i) (filter (\<lambda>(i, s). str_strip (get_text s) \<noteq> []) ps)"
  by (induction ps) (auto simp: index_lines_cue)

text \<open>
  The index line of every emitted cue is the 1-based position of its sentence in the input
  list, so a skipped sentence leaves a gap in the numbering.
\<close>

lemma generate_srt_index_is_position:
  "index_lines (srt_loop fmt inc [] (enumerate 1 ss)) =
     map (\<lambda>(i, s). str_nat i) (filter (\<lambda>(i, s). str_strip (get_text s) \<noteq> []) (enumerate 1 ss))"
  by (simp add: srt_loop_concat index_lines_srt)

text \<open>
  Claim C4 fails on the code: for a sentence with empty text followed by a sentence with
  text, the one emitted cue block has the index 2 and not 1.
\<close>

theorem generate_srt_index_gap:
  "generate_srt format_timestamp
     [\<lparr>index = None, start_time = Some 0, end_time = Some 1, sentence_text = Some '''',
       speaker = None, duration = None\<rparr>,
      \<lparr>index = None, start_time = Some 1, end_time = Some 2, sentence_text = Some ''a'',
       speaker = None, duration = None\<rparr>] (Some ''out.srt'') False
   = Success \<lparr>srt_path = ''out.srt'',
              srt_file = ''2'' @ [nl] @ ''00:00:01,000 --> 00:00:02,000'' @ [nl] @ ''a'' @ [nl],
              subtitle_count = 2, total_duration = 2\<rparr>"
proof -
  have e: "enumerate 1 [x, y] = [(1, x), (2, y)]" for x y :: sentence
    by (simp add: numeral_2_eq_2)
  show ?thesis
    by (simp add: generate_srt_def srt_text_def e cue_lines_def get_text_def
          get_start_time_def get_end_time_def get_speaker_def str_strip_def is_space_def
          whitespace_def format_timestamp_def pad2_def pad3_def str_nat.simps
          digit_char_table digit_char_Suc_0 nl_def)
qed

section \<open>Properties of SRT parsing\<close>

lemma match_time_line_groups:
  "match_time_line line = Some (g1, g2) \<Longrightarrow> is_timestamp g1 \<and> is_timestamp g2"
  by (auto simp: match_time_line_def split: if_splits)

lemma parse_block_total:
  assumes "\<forall>s e. is_timestamp s \<and> prs s = Inl e \<longrightarrow> e = ValueError \<or> e = IndexError"
  shows "\<exists>r. parse_block prs block = Inr r \<and> (\<forall>c. r = Some c \<longrightarrow> timed_cue c)"
proof -
  let ?lines = "str_split_nl (str_strip block)"
  show ?thesis
  proof (cases "malformed_block block")
    case True
    then show ?thesis
      by (auto simp: parse_block_def malformed_block_def caught_def Let_def split: option.splits)
  next
    case False
    then obtain idx g1 g2 where idx: "py_int (?lines ! 0) = Some idx"
      and tl: "match_time_line (?lines ! 1) = Some (g1, g2)" and len: "\<not> length ?lines < 3"
      by (auto simp: malformed_block_def)
    from match_time_line_groups [OF tl] have g: "is_timestamp g1" "is_timestamp g2" by simp_all
    have c1: "caught e = Inr None" if "prs g1 = Inl e" for e
      using assms g(1) that by (auto simp: caught_def)
    have c2: "caught e = Inr None" if "prs g2 = Inl e" for e
      using assms g(2) that by (auto simp: caught_def)
    show ?thesis
      using idx tl len c1 c2
      by (auto simp: parse_block_def Let_def timed_cue_def split: sum.splits)
  qed
qed

lemma parse_loop_total:
  assumes "\<forall>s e. is_timestamp s \<and> prs s = Inl e \<longrightarrow> e = ValueError \<or> e = IndexError"
  shows "\<forall>c \<in> set acc. timed_cue c \<Longrightarrow>
         \<exists>cues. parse_loop prs acc blocks = Inr cues \<and> (\<forall>c \<in> set cues. timed_cue c)"
proof (induction blocks arbitrary: acc)
  case Nil
  then show ?case by simp
next
  case (Cons b bs)
  from parse_block_total [OF assms, of b] obtain r
    where r: "parse_block prs b = Inr r" "\<forall>c. r = Some c \<longrightarrow> timed_cue c" by blast
  show ?case
  proof (cases r)
    case None
    with r Cons show ?thesis by simp
  next
    case (Some c)
    with r have "\<forall>c' \<in> set (acc @ [c]). timed_cue c'" using Cons.prems by auto
    from Cons.IH [OF this] show ?thesis using r Some by simp
  qed
qed

text \<open>
  Claim C10: provided the time helper, on the timestamps the pattern lets through, raises
  nothing but \<open>ValueError\<close> or \<open>IndexError\<close>, \<open>_parse_srt_content\<close> returns a list of
  cues for every input string and raises nothing, and every cue it returns has
  \<open>duration = end_time - start_time\<close>.
\<close>

theorem parse_srt_content_total:
  assumes "\<forall>s e. is_timestamp s \<and> prs s = Inl e \<longrightarrow> e = ValueError \<or> e = IndexError"
  shows "\<exists>cues. parse_srt_content prs content = Inr cues
           \<and> (\<forall>c \<in> set cues. \<exists>st en. start_time c = Some st \<and> end_time c = Some en
                 \<and> duration c = Some (en - st))"
  using parse_loop_total [OF assms, of "[]" "re_split_blank (str_strip content)"]
  by (simp add: parse_srt_content_def timed_cue_def)

lemma srt_time_to_seconds_raises:
  "srt_time_to_seconds s = Inl e \<Longrightarrow> e = ValueError"
  by (auto simp: srt_time_to_seconds_def split: sum.splits)

theorem parse_srt_content_total_witness:
  "\<exists>cues. parse_srt_content srt_time_to_seconds damaged_document = Inr cues
      \<and> (\<forall>c \<in> set cues. \<exists>st en. start_time c = Some st \<and> end_time c = Some en
            \<and> duration c = Some (en - st))"
proof -
  have h: "\<forall>s e. is_timestamp s \<and> srt_time_to_seconds s = Inl e \<longrightarrow> e = ValueError \<or> e = IndexError"
    using srt_time_to_seconds_raises by blast
  show ?thesis by (rule parse_srt_content_total [OF h])
qed

lemma parse_block_malformed:
  "malformed_block block \<Longrightarrow> parse_block prs block = Inr None"
  by (auto simp: parse_block_def malformed_block_def caught_def Let_def split: option.splits)

lemma parse_loop_skips_malformed:
  "parse_loop prs acc blocks = parse_loop prs acc (filter (\<lambda>b. \<not> malformed_block b) blocks)"
proof (induction blocks arbitrary: acc)
  case Nil
  then show ?case by simp
next
  case (Cons b bs)
  show ?case
  proof (cases "malformed_block b")
    case True
    then show ?thesis using Cons [of acc] by (simp add: parse_block_malformed)
  next
    case False
    then show ?thesis using Cons by (auto split: sum.splits option.splits)
  qed
qed

lemmas eval_parse =
  str_strip_def is_space_def whitespace_def nl_def malformed_block_def py_int_def
  is_int_space_def is_digit_def digits_value_def digit_val_def match_time_line_def
  is_timestamp_def pattern_char_def parse_block_def srt_time_to_seconds_def
  parse_timestamp_def well_formed_timestamp_def ts_hours_def ts_minutes_def ts_seconds_def
  ts_millis_def match_speaker_tag_def caught_def Let_def after_last_nl_def

lemma split_clean_document:
  "re_split_blank (str_strip clean_document) = [''1'' @ [nl] @ ''00:00:00,000 --> 00:00:01,500'' @ [nl] @ ''hello'']"
  by (simp add: clean_document_def eval_parse)

lemma split_damaged_document:
  "re_split_blank (str_strip damaged_document) =
     [''1'' @ [nl] @ ''00:00:00,000 --> 00:00:01,500'' @ [nl] @ ''hello'', ''2'' @ [nl] @ ''world'']"
  by (simp add: damaged_document_def eval_parse)

lemma malformed_second_block: "malformed_block (''2'' @ [nl] @ ''world'')"
  by (simp add: eval_parse)

lemma wellformed_first_block:
  "\<not> malformed_block (''1'' @ [nl] @ ''00:00:00,000 --> 00:00:01,500'' @ [nl] @ ''hello'')"
  by (simp add: eval_parse)

lemma parse_first_block:
  "parse_block srt_time_to_seconds (''1'' @ [nl] @ ''00:00:00,000 --> 00:00:01,500'' @ [nl] @ ''hello'')
   = Inr (Some \<lparr>index = Some 1, start_time = Some 0, end_time = Some 1.5,
                 sentence_text = Some ''hello'', speaker = Some [], duration = Some 1.5\<rparr>)"
  by (simp add: eval_parse)

text \<open>
  Claim C7, as the code has it: the parse of a document is the parse of its blocks that are
  not malformed, so a block with fewer than three lines, with an index line that is no
  integer or with a second line that lacks the time pattern is passed over and the blocks
  around it are parsed as if it were absent. The result is the list of cues alone.
\<close>

theorem parse_srt_content_skips_malformed:
  "parse_srt_content prs content =
     parse_loop prs [] (filter (\<lambda>b. \<not> malformed_block b) (re_split_blank (str_strip content)))"
  unfolding parse_srt_content_def by (rule parse_loop_skips_malformed)

theorem parse_srt_content_skips_malformed_witness:
  "parse_srt_content srt_time_to_seconds damaged_document
   = Inr [\<lparr>index = Some 1, start_time = Some 0, end_time = Some 1.5,
            sentence_text = Some ''hello'', speaker = Some [], duration = Some 1.5\<rparr>]"
  using parse_srt_content_skips_malformed [of srt_time_to_seconds damaged_document]
  by (simp add: split_damaged_document malformed_second_block [simplified]
        wellformed_first_block [simplified] parse_first_block [simplified])

text \<open>
  Claim C7 as stated fails: the result carries no count of skipped blocks. The document
  with one skipped block and the document with none give the same result.
\<close>

theorem parse_srt_file_no_skip_count_counterexample:
  "parse_srt_file srt_time_to_seconds (Some damaged_document)
     = parse_srt_file srt_time_to_seconds (Some clean_document)
   \<and> spec_skipped_count srt_time_to_seconds damaged_document = 1
   \<and> spec_skipped_count srt_time_to_seconds clean_document = 0"
  by (simp add: parse_srt_file_def parse_srt_content_def spec_skipped_count_def
        split_damaged_document split_clean_document parse_first_block [simplified]
        parse_block_malformed [OF malformed_second_block, simplified])

section \<open>Properties of the time model\<close>

lemma is_digit_cases:
  "is_digit c \<longleftrightarrow> c = CHR ''0'' \<or> c = CHR ''1'' \<or> c = CHR ''2'' \<or> c = CHR ''3'' \<or> c = CHR ''4''
     \<or> c = CHR ''5'' \<or> c = CHR ''6'' \<or> c = CHR ''7'' \<or> c = CHR ''8'' \<or> c = CHR ''9''"
  by (auto simp: is_digit_def)

lemma digit_val_less: "is_digit c \<Longrightarrow> digit_val c < 10"
  by (auto simp: is_digit_cases digit_val_def)

lemma digit_char_val: "is_digit c \<Longrightarrow> digit_char (digit_val c) = c"
  by (auto simp: is_digit_cases digit_val_def digit_char_table digit_char_Suc_0)

lemma digit_val_char: "d < 10 \<Longrightarrow> digit_val (digit_char d) = d"
  by (simp add: digit_val_def digit_char_def)

lemma is_digit_char: "d < 10 \<Longrightarrow> is_digit (digit_char d)"
proof -
  assume "d < 10"
  then have "d \<in> {0, 1, 2, 3, 4, 5, 6, 7, 8, 9}" by auto
  then show ?thesis
    by (auto simp: is_digit_def digit_char_table digit_char_Suc_0)
qed

lemma str_nat_digit: "d < 10 \<Longrightarrow> str_nat d = [digit_char d]"
  by (simp add: str_nat.simps)

lemma str_nat_snoc: "0 < n \<Longrightarrow> d < 10 \<Longrightarrow> str_nat (10 * n + d) = str_nat n @ [digit_char d]"
  by (subst str_nat.simps) simp

lemma pad2_digits:
  assumes "is_digit a" and "is_digit b"
  shows "pad2 (10 * digit_val a + digit_val b) = [a, b]"
proof (cases "digit_val a = 0")
  case True
  then have "a = CHR ''0''" using digit_char_val [OF assms(1)] by (simp add: digit_char_table)
  then show ?thesis
    using True digit_val_less [OF assms(2)] digit_char_val [OF assms(2)]
    by (simp add: pad2_def str_nat_digit)
next
  case False
  then have "str_nat (10 * digit_val a + digit_val b) = str_nat (digit_val a) @ [digit_char (digit_val b)]"
    using digit_val_less [OF assms(2)] by (intro str_nat_snoc) simp_all
  then show ?thesis
    using False digit_val_less [OF assms(1)] digit_char_val assms
    by (simp add: pad2_def str_nat_digit)
qed

lemma pad3_digits:
  assumes "is_digit a" and "is_digit b" and "is_digit c"
  shows "pad3 (100 * digit_val a + 10 * digit_val b + digit_val c) = [a, b, c]"
proof -
  let ?n = "10 * digit_val a + digit_val b"
  have n: "100 * digit_val a + 10 * digit_val b + digit_val c = 10 * ?n + digit_val c" by simp
  have lc: "digit_val c < 10" and lb: "digit_val b < 10" and la: "digit_val a < 10"
    using assms by (simp_all add: digit_val_less)
  show ?thesis
  proof (cases "?n = 0")
    case True
    then have "digit_val a = 0" "digit_val b = 0" by simp_all
    then have "a = CHR ''0''" "b = CHR ''0''"
      using digit_char_val [OF assms(1)] digit_char_val [OF assms(2)]
      by (simp_all add: digit_char_table)
    then show ?thesis
      using True lc digit_char_val [OF assms(3)] by (simp add: pad3_def str_nat_digit)
  next
    case False
    then have s: "str_nat (10 * ?n + digit_val c) = str_nat ?n @ [digit_char (digit_val c)]"
      using lc by (intro str_nat_snoc) simp_all
    have p2: "pad2 ?n = [a, b]" using assms(1,2) by (rule pad2_digits)
    show ?thesis
    proof (cases "?n < 10")
      case True
      then have "str_nat ?n = [b]" "a = CHR ''0''"
        using p2 by (simp_all add: pad2_def)
      then show ?thesis
        using True False s lc digit_char_val [OF assms(3)]
        unfolding n by (simp add: pad3_def)
    next
      case False
      then have "str_nat ?n = [a, b]" using p2 by (simp add: pad2_def)
      then show ?thesis
        using False s lc la lb digit_char_val [OF assms(3)]
        unfolding n by (simp add: pad3_def)
    qed
  qed
qed

lemma digits_value_2: "is_digit a \<Longrightarrow> is_digit b \<Longrightarrow> digits_value [a, b] = 10 * digit_val a + digit_val b"
  by (simp add: digits_value_def)

lemma digits_value_3:
  "is_digit a \<Longrightarrow> is_digit b \<Longrightarrow> is_digit c \<Longrightarrow>
   digits_value [a, b, c] = 100 * digit_val a + 10 * digit_val b + digit_val c"
  by (simp add: digits_value_def)

lemma is_timestamp_shape:
  "is_timestamp s \<longleftrightarrow>
     (\<exists>a b c d e f g h i. s = [a, b, CHR '':'', c, d, CHR '':'', e, f, CHR '','', g, h, i]
        \<and> is_digit a \<and> is_digit b \<and> is_digit c \<and> is_digit d \<and> is_digit e \<and> is_digit f
        \<and> is_digit g \<and> is_digit h \<and> is_digit i)"
  by (auto simp: is_timestamp_def pattern_char_def list_all2_Cons1)

lemma div_mod_parts:
  fixes q c r :: nat
  assumes "r < c"
  shows "(q * c + r) div c = q" and "(q * c + r) mod c = r"
  using assms by simp_all

lemma millis_split:
  fixes H M S K :: nat
  assumes "M \<le> 59" and "S \<le> 59" and "K < 1000"
  defines "N \<equiv> H * 3600000 + M * 60000 + S * 1000 + K"
  shows "N div 3600000 = H" and "N div 60000 mod 60 = M" and "N div 1000 mod 60 = S"
    and "N mod 1000 = K"
proof -
  have r1: "M * 60000 + S * 1000 + K < 3600000" using assms(1-3) by linarith
  have a1: "N = H * 3600000 + (M * 60000 + S * 1000 + K)" unfolding N_def by linarith
  show "N div 3600000 = H" unfolding a1 using r1 by (rule div_mod_parts(1))
  have r2: "S * 1000 + K < 60000" using assms(2,3) by linarith
  have a2: "N = (H * 60 + M) * 60000 + (S * 1000 + K)" unfolding N_def by (simp add: algebra_simps)
  have d2: "N div 60000 = H * 60 + M" unfolding a2 using r2 by (rule div_mod_parts(1))
  have m2: "M < 60" using assms(1) by linarith
  show "N div 60000 mod 60 = M" unfolding d2 using m2 by (rule div_mod_parts(2))
  have a3: "N = ((H * 60 + M) * 60 + S) * 1000 + K" unfolding N_def by (simp add: algebra_simps)
  have d3: "N div 1000 = (H * 60 + M) * 60 + S" unfolding a3 using assms(3) by (rule div_mod_parts(1))
  have m3: "S < 60" using assms(2) by linarith
  show "N div 1000 mod 60 = S" unfolding d3 using m3 by (rule div_mod_parts(2))
  show "N mod 1000 = K" unfolding a3 using assms(3) by (rule div_mod_parts(2))
qed

lemma format_timestamp_of_parts:
  fixes H M S K :: nat
  assumes "M \<le> 59" and "S \<le> 59" and "K < 1000"
  shows "format_timestamp (real (H * 3600 + M * 60 + S) + real K / 1000) =
           pad2 H @ '':'' @ pad2 M @ '':'' @ pad2 S @ '','' @ pad3 K"
proof -
  let ?N = "H * 3600000 + M * 60000 + S * 1000 + K"
  have "(real (H * 3600 + M * 60 + S) + real K / 1000) * 1000 = real ?N"
    by (simp add: algebra_simps)
  then have "nat \<lfloor>(real (H * 3600 + M * 60 + S) + real K / 1000) * 1000\<rfloor> = ?N"
    by (simp only: floor_of_nat nat_int)
  then show ?thesis
    unfolding format_timestamp_def Let_def
    using millis_split [OF assms, of H] by simp
qed

text \<open>
  Claim C8: every well-formed timestamp string (the fixed pattern, minutes and seconds at
  most 59) is parsed to a time, and formatting that time gives the string back.
\<close>

theorem timestamp_round_trip:
  assumes "well_formed_timestamp s"
  shows "\<exists>t. parse_timestamp s = Inr t \<and> format_timestamp t = s"
proof -
  from assms have ts: "is_timestamp s" and m: "ts_minutes s \<le> 59" and sec: "ts_seconds s \<le> 59"
    by (simp_all add: well_formed_timestamp_def)
  from ts obtain a b c d e f g h i
    where s: "s = [a, b, CHR '':'', c, d, CHR '':'', e, f, CHR '','', g, h, i]"
      and dg: "is_digit a" "is_digit b" "is_digit c" "is_digit d" "is_digit e" "is_digit f"
              "is_digit g" "is_digit h" "is_digit i"
    unfolding is_timestamp_shape by blast
  let ?H = "10 * digit_val a + digit_val b"
  let ?M = "10 * digit_val c + digit_val d"
  let ?S = "10 * digit_val e + digit_val f"
  let ?K = "100 * digit_val g + 10 * digit_val h + digit_val i"
  have hh: "ts_hours s = ?H" and mm: "ts_minutes s = ?M" and ss: "ts_seconds s = ?S"
    and kk: "ts_millis s = ?K"
    using dg by (simp_all add: s ts_hours_def ts_minutes_def ts_seconds_def ts_millis_def
        digits_value_2 digits_value_3)
  have K: "?K < 1000"
    using digit_val_less [OF dg(7)] digit_val_less [OF dg(8)] digit_val_less [OF dg(9)] by simp
  have M: "?M \<le> 59" and S: "?S \<le> 59" using m sec mm ss by simp_all
  have p: "parse_timestamp s = Inr (real (?H * 3600 + ?M * 60 + ?S) + real ?K / 1000)"
    using assms by (simp only: parse_timestamp_def hh mm ss kk if_True)
  have "format_timestamp (real (?H * 3600 + ?M * 60 + ?S) + real ?K / 1000)
          = pad2 ?H @ '':'' @ pad2 ?M @ '':'' @ pad2 ?S @ '','' @ pad3 ?K"
    using M S K by (rule format_timestamp_of_parts)
  also have "\<dots> = s"
    using dg by (simp only: pad2_digits pad3_digits s) simp
  finally show ?thesis using p by blast
qed

theorem timestamp_round_trip_witness:
  "well_formed_timestamp ''01:02:03,456''
   \<and> (\<exists>t. parse_timestamp ''01:02:03,456'' = Inr t \<and> format_timestamp t = ''01:02:03,456'')"
proof -
  have h: "well_formed_timestamp ''01:02:03,456''"
    by (simp add: well_formed_timestamp_def is_timestamp_def pattern_char_def is_digit_def
          ts_minutes_def ts_seconds_def digits_value_def digit_val_def)
  show ?thesis using h timestamp_round_trip [OF h] by blast
qed

section \<open>Properties of the segment merger\<close>

lemma merge_into_speaker: "u_speaker (merge_into acc u) = u_speaker acc"
  by (simp add: merge_into_def)

lemma foldl_merge_into_speaker: "u_speaker (foldl merge_into acc us) = u_speaker acc"
  by (induction us arbitrary: acc) (simp_all add: merge_into_speaker)

lemma cue_of_group_snoc:
  "grp \<noteq> [] \<Longrightarrow> cue_of_group (grp @ [u]) = merge_into (cue_of_group grp) u"
  by (cases grp) (simp_all add: cue_of_group_def)

lemma merge_pass_groups:
  "grp \<noteq> [] \<Longrightarrow> acc = cue_of_group grp \<Longrightarrow>
   merge_pass g d acc us = map cue_of_group (merge_groups g d acc grp us)"
proof (induction us arbitrary: acc grp)
  case Nil
  then show ?case by simp
next
  case (Cons u us)
  show ?case
  proof (cases "can_merge g d acc u")
    case True
    have "merge_pass g d (merge_into acc u) us
            = map cue_of_group (merge_groups g d (merge_into acc u) (grp @ [u]) us)"
      using Cons.prems by (intro Cons.IH) (simp_all add: cue_of_group_snoc)
    with True show ?thesis by simp
  next
    case False
    have "merge_pass g d u us = map cue_of_group (merge_groups g d u [u] us)"
      by (intro Cons.IH) (simp_all add: cue_of_group_def)
    with False Cons.prems show ?thesis by simp
  qed
qed

lemma merge_groups_concat: "concat (merge_groups g d acc grp us) = grp @ us"
  by (induction us arbitrary: acc grp) simp_all

lemma merge_groups_one_speaker:
  "grp \<noteq> [] \<Longrightarrow> \<forall>u \<in> set grp. u_speaker u = u_speaker acc \<Longrightarrow>
   G \<in> set (merge_groups g d acc grp us) \<Longrightarrow>
   G \<noteq> [] \<and> (\<forall>u \<in> set G. u_speaker u = u_speaker (hd G))"
proof (induction us arbitrary: acc grp)
  case Nil
  then have "G = grp" by simp
  moreover have "u_speaker (hd grp) = u_speaker acc" using Nil.prems(1,2) by simp
  ultimately show ?case using Nil.prems(1,2) by simp
next
  case (Cons u us)
  show ?case
  proof (cases "can_merge g d acc u")
    case True
    then have G: "G \<in> set (merge_groups g d (merge_into acc u) (grp @ [u]) us)"
      using Cons.prems(3) by simp
    have "\<forall>v \<in> set (grp @ [u]). u_speaker v = u_speaker (merge_into acc u)"
      using Cons.prems(2) True by (auto simp: merge_into_speaker can_merge_def)
    with G show ?thesis by (intro Cons.IH [of "grp @ [u]" "merge_into acc u"]) simp_all
  next
    case False
    then consider "G = grp" | "G \<in> set (merge_groups g d u [u] us)"
      using Cons.prems(3) by auto
    then show ?thesis
    proof cases
      case 1
      moreover have "u_speaker (hd grp) = u_speaker acc" using Cons.prems(1,2) by simp
      ultimately show ?thesis using Cons.prems(1,2) by simp
    next
      case 2
      then show ?thesis by (intro Cons.IH [of "[u]" u]) simp_all
    qed
  qed
qed

lemma merge_pass_step:
  "merge_pass g d acc (u # us) =
     (if u_speaker u = u_speaker acc \<and> u_start u - u_end acc \<le> g \<and> u_end u - u_start acc \<le> d
      then merge_pass g d (merge_into acc u) us
      else acc # merge_pass g d u us)"
  unfolding merge_pass.simps can_merge_def by (rule refl)

lemma merge_segments_groups:
  "merge_segments g d ts = map cue_of_group (merge_segment_groups g d ts)"
proof (cases ts)
  case Nil
  then show ?thesis by (simp add: merge_segments_def merge_segment_groups_def)
next
  case (Cons t rest)
  have "merge_pass g d t rest = map cue_of_group (merge_groups g d t [t] rest)"
    by (intro merge_pass_groups) (simp_all add: cue_of_group_def)
  with Cons show ?thesis by (simp add: merge_segments_def merge_segment_groups_def)
qed

lemma merge_segment_groups_concat: "concat (merge_segment_groups g d ts) = ts"
  by (cases ts) (simp_all add: merge_segment_groups_def merge_groups_concat)

lemma merge_segment_groups_one_speaker:
  assumes "G \<in> set (merge_segment_groups g d ts)"
  shows "G \<noteq> [] \<and> (\<forall>v \<in> set G. u_speaker v = u_speaker (cue_of_group G))"
proof -
  obtain t rest where ts: "ts = t # rest" and G: "G \<in> set (merge_groups g d t [t] rest)"
    using assms by (cases ts) (simp_all add: merge_segment_groups_def)
  have "[t] \<noteq> []" "\<forall>u \<in> set [t]. u_speaker u = u_speaker t" by simp_all
  from merge_groups_one_speaker [OF this G]
  have one: "G \<noteq> [] \<and> (\<forall>v \<in> set G. u_speaker v = u_speaker (hd G))" .
  have c: "u_speaker (cue_of_group G) = u_speaker (hd G)"
    by (simp add: cue_of_group_def foldl_merge_into_speaker)
  show ?thesis unfolding c by (rule one)
qed

lemma merge_two_speakers:
  "u_speaker a \<noteq> u_speaker b \<Longrightarrow> merge_segments g d [a, b] = [a, b]"
  by (simp add: merge_segments_def can_merge_def)

text \<open>
  Claim C3: in the pass, the next utterance is merged into the open accumulator exactly when
  it has the accumulator's speaker (or both have none), starts at most \<open>max_gap\<close> after the
  accumulator's end and ends at most \<open>max_duration\<close> after the accumulator's start. So the
  cues are the merges of consecutive groups of the input, every utterance of a group has the
  speaker of its cue, and two adjacent utterances with different speakers stay two cues
  whatever the gap and the limits are.
\<close>

theorem merge_segments_speaker_boundary:
  "merge_pass g d acc (u # us) =
     (if u_speaker u = u_speaker acc \<and> u_start u - u_end acc \<le> g \<and> u_end u - u_start acc \<le> d
      then merge_pass g d (merge_into acc u) us
      else acc # merge_pass g d u us)
   \<and> merge_segments g d ts = map cue_of_group (merge_segment_groups g d ts)
   \<and> concat (merge_segment_groups g d ts) = ts
   \<and> (\<forall>G \<in> set (merge_segment_groups g d ts).
         G \<noteq> [] \<and> (\<forall>v \<in> set G. u_speaker v = u_speaker (cue_of_group G)))
   \<and> (u_speaker a \<noteq> u_speaker b \<longrightarrow> merge_segments g d [a, b] = [a, b])"
proof -
  have one: "\<forall>G \<in> set (merge_segment_groups g d ts).
         G \<noteq> [] \<and> (\<forall>v \<in> set G. u_speaker v = u_speaker (cue_of_group G))"
    using merge_segment_groups_one_speaker by blast
  have two: "u_speaker a \<noteq> u_speaker b \<longrightarrow> merge_segments g d [a, b] = [a, b]"
    using merge_two_speakers by blast
  show ?thesis
    apply (rule conjI, rule merge_pass_step)
    apply (rule conjI, rule merge_segments_groups)
    apply (rule conjI, rule merge_segment_groups_concat)
    apply (rule conjI, rule one)
    apply (rule two)
    done
qed

theorem merge_segments_speaker_boundary_witness:
  "merge_segments 1 30
     [\<lparr>u_start = 0, u_end = 2, u_text = ''a'', u_speaker = Some ''spk1''\<rparr>,
      \<lparr>u_start = 2, u_end = 4, u_text = ''b'', u_speaker = Some ''spk2''\<rparr>]
   = [\<lparr>u_start = 0, u_end = 2, u_text = ''a'', u_speaker = Some ''spk1''\<rparr>,
      \<lparr>u_start = 2, u_end = 4, u_text = ''b'', u_speaker = Some ''spk2''\<rparr>]"
proof -
  have h: "u_speaker \<lparr>u_start = 0, u_end = 2, u_text = ''a'', u_speaker = Some ''spk1''\<rparr>
             \<noteq> u_speaker \<lparr>u_start = 2, u_end = 4, u_text = ''b'', u_speaker = Some ''spk2''\<rparr>"
    by simp
  show ?thesis
    by (rule merge_segments_speaker_boundary
          [THEN conjunct2, THEN conjunct2, THEN conjunct2, THEN conjunct2, THEN mp, OF h])
qed

section \<open>Properties of the subtitle codec\<close>

lemma str_split_nl_nonempty: "str_split_nl s \<noteq> []"
  by (induction s) (auto split: list.splits)

lemma str_join_nl_Cons_char: "str_join_nl ((c # l) # ls) = c # str_join_nl (l # ls)"
  by (cases ls) simp_all

lemma str_join_nl_Nil_Cons: "ls \<noteq> [] \<Longrightarrow> str_join_nl ([] # ls) = nl # str_join_nl ls"
  by (cases ls) simp_all

lemma str_join_split: "str_join_nl (str_split_nl s) = s"
proof (induction s)
  case Nil
  then show ?case by simp
next
  case (Cons c cs)
  obtain l ls where l: "str_split_nl cs = l # ls"
    using str_split_nl_nonempty [of cs] by (cases "str_split_nl cs") auto
  show ?case
  proof (cases "c = nl")
    case True
    then show ?thesis using Cons str_split_nl_nonempty [of cs]
      by (simp add: str_join_nl_Nil_Cons)
  next
    case False
    then show ?thesis using Cons l by (simp add: str_join_nl_Cons_char)
  qed
qed

lemma str_split_nl_append:
  "nl \<notin> set a \<Longrightarrow> str_split_nl (a @ nl # rest) = a # str_split_nl rest"
  by (induction a) auto

lemma str_strip_id:
  "s \<noteq> [] \<Longrightarrow> \<not> is_space (hd s) \<Longrightarrow> \<not> is_space (last s) \<Longrightarrow> str_strip s = s"
proof -
  assume a: "s \<noteq> []" "\<not> is_space (hd s)" "\<not> is_space (last s)"
  have 1: "dropWhile is_space s = s" using a(1,2) by (cases s) simp_all
  have 2: "dropWhile is_space (rev s) = rev s"
    using a(1,3) by (cases "rev s") (simp_all add: last_rev [symmetric] hd_rev)
  show ?thesis by (simp add: str_strip_def 1 2)
qed

lemma is_space_nl: "is_space nl"
  by (simp add: is_space_def whitespace_def nl_def)

lemma str_strip_trailing_nl:
  "s \<noteq> [] \<Longrightarrow> \<not> is_space (hd s) \<Longrightarrow> \<not> is_space (last s) \<Longrightarrow> str_strip (s @ [nl]) = s"
proof -
  assume a: "s \<noteq> []" "\<not> is_space (hd s)" "\<not> is_space (last s)"
  have 1: "dropWhile is_space (s @ [nl]) = s @ [nl]" using a(1,2) by (cases s) simp_all
  have 2: "dropWhile is_space (rev s) = rev s"
    using a(1,3) by (cases "rev s") (simp_all add: hd_rev)
  show ?thesis by (simp add: str_strip_def 1 2 is_space_nl)
qed

lemma str_strip_notempty_ends:
  "str_strip s = s \<Longrightarrow> s \<noteq> [] \<Longrightarrow> \<not> is_space (hd s) \<and> \<not> is_space (last s)"
proof -
  assume e: "str_strip s = s" and n: "s \<noteq> []"
  let ?d = "dropWhile is_space s"
  have len: "length (dropWhile is_space (rev ?d)) \<le> length (rev ?d)" by (rule length_dropWhile_le)
  have "length s = length (dropWhile is_space (rev ?d))"
    using e by (metis length_rev str_strip_def)
  also have "\<dots> \<le> length ?d" using len by simp
  finally have "length ?d = length s" using length_dropWhile_le [of is_space s] by simp
  then have d: "?d = s" by (metis dropWhile_eq_drop drop_eq_Nil2 append_take_drop_id
        length_0_conv diff_self_eq_0 length_drop takeWhile_dropWhile_id append_self_conv2 length_append add_diff_cancel_right' )
  then have h: "\<not> is_space (hd s)" using n by (metis hd_dropWhile)
  have "rev (dropWhile is_space (rev s)) = s" using e d by (simp add: str_strip_def)
  then have "dropWhile is_space (rev s) = rev s" by (metis rev_rev_ident)
  then have "\<not> is_space (hd (rev s))" using n by (metis hd_dropWhile rev_is_Nil_conv)
  then show ?thesis using h n by (simp add: hd_rev)
qed

lemma takeWhile_space_prefix:
  "b \<noteq> [] \<Longrightarrow> \<not> is_space (last b) \<Longrightarrow> takeWhile is_space (b @ x) = takeWhile is_space b"
  by (rule takeWhile_append1 [of "last b"]) simp_all

lemma re_split_blank_single: "\<not> has_blank_line b \<Longrightarrow> re_split_blank b = [b]"
  by (induction b) auto

lemma re_split_blank_separator:
  assumes "r \<noteq> []" and "\<not> is_space (hd r)"
  shows "re_split_blank (nl # nl # r) = [] # re_split_blank r"
proof -
  have t: "takeWhile is_space (nl # r) = [nl]"
    using assms by (cases r) (simp_all add: is_space_nl)
  have d: "dropWhile is_space (nl # r) = r"
    using assms by (cases r) (simp_all add: is_space_nl)
  have "re_split_blank (nl # nl # r) =
      (if nl = nl \<and> nl \<in> set (takeWhile is_space (nl # r))
       then [] # re_split_blank (after_last_nl (takeWhile is_space (nl # r)) @ dropWhile is_space (nl # r))
       else (case re_split_blank (nl # r) of [] \<Rightarrow> [[nl]] | b # bs \<Rightarrow> (nl # b) # bs))"
    by (rule re_split_blank.simps(2))
  then show ?thesis unfolding t d by (simp add: after_last_nl_def)
qed

lemma re_split_blank_block:
  assumes "r \<noteq> []" and "\<not> is_space (hd r)"
  shows "b \<noteq> [] \<Longrightarrow> \<not> is_space (last b) \<Longrightarrow> \<not> has_blank_line b \<Longrightarrow>
         re_split_blank (b @ nl # nl # r) = b # re_split_blank r"
proof (induction b)
  case Nil
  then show ?case by simp
next
  case (Cons c b)
  show ?case
  proof (cases "b = []")
    case True
    then have "c \<noteq> nl" using Cons.prems(2) is_space_nl by auto
    then show ?thesis
      using True re_split_blank_separator [OF assms] by simp
  next
    case False
    then have last: "\<not> is_space (last b)" using Cons.prems(2) by simp
    have nb: "\<not> has_blank_line b" using Cons.prems(3) by simp
    have ih: "re_split_blank (b @ nl # nl # r) = b # re_split_blank r"
      using False last nb by (rule Cons.IH)
    have "\<not> (c = nl \<and> nl \<in> set (takeWhile is_space (b @ nl # nl # r)))"
      using Cons.prems(3) takeWhile_space_prefix [OF False last] by simp
    then show ?thesis using ih by (simp del: takeWhile_append)
  qed
qed

lemma join_blocks_head:
  "b \<noteq> [] \<Longrightarrow> join_blocks (b # bs) \<noteq> [] \<and> hd (join_blocks (b # bs)) = hd b"
  by (cases bs) simp_all

lemma re_split_blank_join:
  "bs \<noteq> [] \<Longrightarrow> \<forall>b \<in> set bs. clean_block b \<Longrightarrow> re_split_blank (join_blocks bs) = bs"
proof (induction bs rule: join_blocks.induct)
  case 1
  then show ?case by simp
next
  case (2 b)
  then show ?case by (simp add: clean_block_def re_split_blank_single)
next
  case (3 b b' bs)
  have b: "b \<noteq> []" "\<not> is_space (last b)" "\<not> has_blank_line b"
    using "3.prems"(2) by (simp_all add: clean_block_def)
  have b': "b' \<noteq> []" "\<not> is_space (hd b')"
    using "3.prems"(2) by (simp_all add: clean_block_def)
  have r: "join_blocks (b' # bs) \<noteq> []" "\<not> is_space (hd (join_blocks (b' # bs)))"
    using join_blocks_head [OF b'(1), of bs] b'(2) by simp_all
  have ih: "re_split_blank (join_blocks (b' # bs)) = b' # bs"
    using "3.prems"(2) by (intro "3.IH") simp_all
  show ?case
    using re_split_blank_block [OF r b] ih by simp
qed

lemma has_blank_line_no_nl: "nl \<notin> set a \<Longrightarrow> has_blank_line (a @ r) = has_blank_line r"
  by (induction a) auto

lemma has_blank_line_nl_head:
  "r \<noteq> [] \<Longrightarrow> \<not> is_space (hd r) \<Longrightarrow> has_blank_line (nl # r) = has_blank_line r"
  by (cases r) simp_all

lemma is_digit_not_special:
  assumes "is_digit c"
  shows "\<not> is_space c" and "\<not> is_int_space c" and "c \<noteq> nl" and "c \<noteq> CHR ''-''" and "c \<noteq> CHR ''+''"
  using assms by (auto simp: is_digit_cases is_space_def whitespace_def is_int_space_def nl_def)

lemma str_nat_digits: "c \<in> set (str_nat n) \<Longrightarrow> is_digit c"
proof (induction n arbitrary: c rule: str_nat.induct)
  case (1 n)
  show ?case
  proof (cases "n < 10")
    case True
    then show ?thesis using "1.prems" by (simp add: str_nat_digit is_digit_char)
  next
    case False
    then have "str_nat n = str_nat (n div 10) @ [digit_char (n mod 10)]"
      by (subst str_nat.simps) simp
    then show ?thesis
      using "1.prems" "1.IH" [OF False] by (auto simp: is_digit_char)
  qed
qed

lemma str_nat_nonempty: "str_nat n \<noteq> []"
  by (subst str_nat.simps) simp

lemma digits_value_snoc:
  "is_digit d \<Longrightarrow> digits_value (ds @ [d]) = 10 * digits_value ds + digit_val d"
  by (simp add: digits_value_def)

lemma digits_value_str_nat: "digits_value (str_nat n) = n"
proof (induction n rule: str_nat.induct)
  case (1 n)
  show ?case
  proof (cases "n < 10")
    case True
    then show ?thesis
      by (simp add: str_nat_digit digits_value_def is_digit_char digit_val_char)
  next
    case False
    then have "str_nat n = str_nat (n div 10) @ [digit_char (n mod 10)]"
      by (subst str_nat.simps) simp
    then show ?thesis
      using "1.IH" [OF False] by (simp add: digits_value_snoc is_digit_char digit_val_char)
  qed
qed

lemma int_body_digits:
  "\<forall>c \<in> set ds. is_digit c \<Longrightarrow> int_body b ds = (b \<or> ds \<noteq> [])"
  by (induction ds arbitrary: b) simp_all

lemma py_int_str_nat: "py_int (str_nat n) = Some (int n)"
proof -
  let ?s = "str_nat n"
  have ne: "?s \<noteq> []" by (rule str_nat_nonempty)
  have dh: "is_digit (hd ?s)" by (rule str_nat_digits [of _ n]) (simp add: ne)
  have dl: "is_digit (last ?s)" by (rule str_nat_digits [of _ n]) (simp add: ne)
  have 1: "dropWhile is_int_space ?s = ?s"
    using ne is_digit_not_special(2) [OF dh] by (cases ?s) simp_all
  have 2: "dropWhile is_int_space (rev ?s) = rev ?s"
    using ne is_digit_not_special(2) [OF dl] by (cases "rev ?s") (simp_all add: hd_rev)
  have 3: "hd ?s \<noteq> CHR ''-''" "hd ?s \<noteq> CHR ''+''"
    using is_digit_not_special(4,5) [OF dh] by simp_all
  have 4: "int_body False ?s"
    using ne str_nat_digits by (simp add: int_body_digits)
  show ?thesis
    by (simp add: py_int_def 1 2 3 4 ne digits_value_str_nat)
qed

lemma is_timestamp_facts:
  assumes "is_timestamp t"
  shows "length t = 12" and "nl \<notin> set t" and "t \<noteq> []" and "\<not> is_space (hd t)"
    and "\<not> is_space (last t)"
proof -
  from assms obtain a b c d e f g h i
    where t: "t = [a, b, CHR '':'', c, d, CHR '':'', e, f, CHR '','', g, h, i]"
      and dg: "is_digit a" "is_digit b" "is_digit c" "is_digit d" "is_digit e" "is_digit f"
              "is_digit g" "is_digit h" "is_digit i"
    unfolding is_timestamp_shape by blast
  show "length t = 12" by (simp add: t)
  show "t \<noteq> []" by (simp add: t)
  show "nl \<notin> set t"
    using dg [THEN is_digit_not_special(3)] by (simp add: t) (simp add: nl_def)
  show "\<not> is_space (hd t)" using is_digit_not_special(1) [OF dg(1)] by (simp add: t)
  show "\<not> is_space (last t)" using is_digit_not_special(1) [OF dg(9)] by (simp add: t)
qed

lemma match_time_line_written:
  assumes "is_timestamp a" and "is_timestamp b"
  shows "match_time_line (a @ '' --> '' @ b) = Some (a, b)"
proof -
  have la: "length a = 12" and lb: "length b = 12"
    using assms by (simp_all add: is_timestamp_facts(1))
  have 1: "take 12 (a @ '' --> '' @ b) = a" using la by simp
  have 2: "drop 12 (a @ '' --> '' @ b) = '' --> '' @ b" using la by simp
  have 3: "drop 17 (a @ '' --> '' @ b) = b" using la by simp
  have 4: "take 12 b = b" using lb by simp
  have 5: "take 5 ('' --> '' @ b) = '' --> ''" by simp
  show ?thesis
    unfolding match_time_line_def 1 2 3 4 5 using assms by simp
qed

lemma tagged_text_ends:
  assumes "round_trips fmt prs s"
  shows "tagged_text s \<noteq> []" and "\<not> is_space (hd (tagged_text s))"
    and "\<not> is_space (last (tagged_text s))" and "\<not> has_blank_line (tagged_text s)"
proof -
  from assms have t: "get_text s \<noteq> []" "str_strip (get_text s) = get_text s"
    and nb: "\<not> has_blank_line (tagged_text s)"
    by (simp_all add: round_trips_def)
  from str_strip_notempty_ends [OF t(2) t(1)]
  have e: "\<not> is_space (hd (get_text s))" "\<not> is_space (last (get_text s))" by simp_all
  have br: "\<not> is_space (CHR ''['')" by (simp add: is_space_def whitespace_def)
  show "tagged_text s \<noteq> []" using t(1) by (simp add: tagged_text_def)
  show "\<not> is_space (hd (tagged_text s))" using e(1) br by (simp add: tagged_text_def)
  show "\<not> is_space (last (tagged_text s))" using e(2) t(1) by (simp add: tagged_text_def)
  show "\<not> has_blank_line (tagged_text s)" by (rule nb)
qed

lemma time_line_facts:
  assumes "round_trips fmt prs s"
  defines "line \<equiv> fmt (get_start_time s) @ '' --> '' @ fmt (get_end_time s)"
  shows "nl \<notin> set line" and "line \<noteq> []" and "\<not> is_space (hd line)"
    and "match_time_line line = Some (fmt (get_start_time s), fmt (get_end_time s))"
    and "prs (fmt (get_start_time s)) = Inr (get_start_time s)"
    and "prs (fmt (get_end_time s)) = Inr (get_end_time s)"
proof -
  from assms(1) have a: "is_timestamp (fmt (get_start_time s))"
    and b: "is_timestamp (fmt (get_end_time s))"
    and pa: "prs (fmt (get_start_time s)) = Inr (get_start_time s)"
    and pb: "prs (fmt (get_end_time s)) = Inr (get_end_time s)"
    by (simp_all add: round_trips_def codec_time_def)
  show "nl \<notin> set line"
    using is_timestamp_facts(2) [OF a] is_timestamp_facts(2) [OF b]
    by (simp add: line_def nl_def)
  show "line \<noteq> []" using is_timestamp_facts(3) [OF a] by (simp add: line_def)
  show "\<not> is_space (hd line)"
    using is_timestamp_facts(3,4) [OF a] by (simp add: line_def)
  show "match_time_line line = Some (fmt (get_start_time s), fmt (get_end_time s))"
    unfolding line_def using a b by (rule match_time_line_written)
  show "prs (fmt (get_start_time s)) = Inr (get_start_time s)" by (rule pa)
  show "prs (fmt (get_end_time s)) = Inr (get_end_time s)" by (rule pb)
qed

lemma str_nat_no_nl: "nl \<notin> set (str_nat i)"
  using str_nat_digits is_digit_not_special(3) by blast

lemma cue_block_clean:
  assumes "round_trips fmt prs s"
  shows "clean_block (cue_block fmt i s)"
proof -
  define line where "line = fmt (get_start_time s) @ '' --> '' @ fmt (get_end_time s)"
  define tg where "tg = tagged_text s"
  have tg: "tg \<noteq> []" "\<not> is_space (hd tg)" "\<not> is_space (last tg)" "\<not> has_blank_line tg"
    using tagged_text_ends [OF assms] unfolding tg_def by blast+
  have ln: "nl \<notin> set line" "line \<noteq> []" "\<not> is_space (hd line)"
    using time_line_facts(1-3) [OF assms] unfolding line_def by blast+
  have cb: "cue_block fmt i s = str_nat i @ nl # (line @ nl # tg)"
    by (simp add: cue_block_def line_def tg_def)
  have hd_digit: "is_digit (hd (str_nat i))"
    by (rule str_nat_digits [of _ i]) (simp add: str_nat_nonempty)
  have 1: "cue_block fmt i s \<noteq> []" by (simp add: cb)
  have 2: "\<not> is_space (hd (cue_block fmt i s))"
    using is_digit_not_special(1) [OF hd_digit] by (simp add: cb str_nat_nonempty)
  have 3: "\<not> is_space (last (cue_block fmt i s))"
    using tg(1,3) by (simp add: cb)
  have h: "line @ nl # tg \<noteq> []" "\<not> is_space (hd (line @ nl # tg))"
    using ln(2,3) by simp_all
  have "has_blank_line (cue_block fmt i s) = has_blank_line (nl # (line @ nl # tg))"
    unfolding cb by (rule has_blank_line_no_nl [OF str_nat_no_nl])
  also have "\<dots> = has_blank_line (line @ nl # tg)"
    by (rule has_blank_line_nl_head [OF h])
  also have "\<dots> = has_blank_line (nl # tg)"
    by (rule has_blank_line_no_nl [OF ln(1)])
  also have "\<dots> = has_blank_line tg"
    by (rule has_blank_line_nl_head [OF tg(1,2)])
  finally have 4: "\<not> has_blank_line (cue_block fmt i s)" using tg(4) by simp
  show ?thesis unfolding clean_block_def using 1 2 3 4 by blast
qed

lemma match_speaker_tag_written:
  assumes "round_trips fmt prs s"
  shows "match_speaker_tag (tagged_text s) =
           (if get_speaker s \<noteq> [] then Some (get_speaker s, get_text s) else None)"
proof (cases "get_speaker s = []")
  case True
  then show ?thesis using assms by (simp add: round_trips_def tagged_text_def)
next
  case False
  let ?spk = "get_speaker s" and ?t = "get_text s"
  from assms False have nb: "CHR '']'' \<notin> set ?spk" and nn: "nl \<notin> set ?t"
    and t: "?t \<noteq> []" "str_strip ?t = ?t"
    by (simp_all add: round_trips_def)
  from str_strip_notempty_ends [OF t(2) t(1)] have h: "\<not> is_space (hd ?t)" by simp
  define r where "r = ?spk @ CHR '']'' # CHR '' '' # ?t"
  have tw: "takeWhile (\<lambda>x. x \<noteq> CHR '']'') r = ?spk"
    unfolding r_def using nb by (subst takeWhile_append2) auto
  have dw: "dropWhile (\<lambda>x. x \<noteq> CHR '']'') r = CHR '']'' # CHR '' '' # ?t"
    unfolding r_def using nb by (subst dropWhile_append2) auto
  have sp1: "is_space (CHR '' '')" by (simp add: is_space_def whitespace_def)
  have sp2: "dropWhile is_space ?t = ?t" using t(1) h by (cases ?t) simp_all
  have ln: "takeWhile (\<lambda>x. x \<noteq> nl) ?t = ?t"
    using nn by (auto simp: takeWhile_eq_all_conv)
  have tg: "tagged_text s = CHR ''['' # r"
    using False by (simp add: tagged_text_def r_def)
  have mem: "CHR '']'' \<in> set r" by (simp add: r_def)
  show ?thesis
    unfolding match_speaker_tag_def tg by (simp add: tw dw sp1 sp2 ln mem False)
qed

lemma parse_block_written:
  assumes "round_trips fmt prs s"
  shows "parse_block prs (cue_block fmt i s) = Inr (Some (parsed_cue i s))"
proof -
  define line where "line = fmt (get_start_time s) @ '' --> '' @ fmt (get_end_time s)"
  define tg where "tg = tagged_text s"
  define rest where "rest = str_split_nl tg"
  have ln: "nl \<notin> set line"
    and mt: "match_time_line line = Some (fmt (get_start_time s), fmt (get_end_time s))"
    and p1: "prs (fmt (get_start_time s)) = Inr (get_start_time s)"
    and p2: "prs (fmt (get_end_time s)) = Inr (get_end_time s)"
    using time_line_facts [OF assms] unfolding line_def by blast+
  have cb: "cue_block fmt i s = str_nat i @ nl # (line @ nl # tg)"
    by (simp add: cue_block_def line_def tg_def)
  have clean: "clean_block (cue_block fmt i s)" using assms by (rule cue_block_clean)
  then have strip: "str_strip (cue_block fmt i s) = cue_block fmt i s"
    by (simp add: clean_block_def str_strip_id)
  have "str_split_nl (cue_block fmt i s) = str_nat i # str_split_nl (line @ nl # tg)"
    unfolding cb by (rule str_split_nl_append [OF str_nat_no_nl])
  also have "str_split_nl (line @ nl # tg) = line # rest"
    unfolding rest_def by (rule str_split_nl_append [OF ln])
  finally have lines: "str_split_nl (cue_block fmt i s) = str_nat i # line # rest" .
  have rest_ne: "rest \<noteq> []" unfolding rest_def by (rule str_split_nl_nonempty)
  have join: "str_join_nl rest = tg" unfolding rest_def by (rule str_join_split)
  have tag: "match_speaker_tag tg =
               (if get_speaker s \<noteq> [] then Some (get_speaker s, get_text s) else None)"
    unfolding tg_def using assms by (rule match_speaker_tag_written)
  have untag: "get_speaker s = [] \<Longrightarrow> tg = get_text s"
    by (simp add: tg_def tagged_text_def)
  have len: "\<not> length (str_nat i # line # rest) < 3"
    using rest_ne by (cases rest) simp_all
  show ?thesis
    unfolding parse_block_def strip lines Let_def
    using len untag
    by (simp add: py_int_str_nat mt p1 p2 join tag parsed_cue_def)
qed

lemma cue_lines_written:
  assumes "round_trips fmt prs s"
  shows "cue_lines fmt True i s =
           [str_nat i, fmt (get_start_time s) @ '' --> '' @ fmt (get_end_time s), tagged_text s, []]"
  using assms by (simp add: cue_lines_def round_trips_def tagged_text_def Let_def)

lemma str_join_nl_cue:
  "str_join_nl (a # b # c # [] # rest) =
     (a @ nl # b @ nl # c) @ (if rest = [] then [nl] else nl # nl # str_join_nl rest)"
  by (cases rest) simp_all

lemma cue_lines_block:
  assumes "round_trips fmt prs s"
  shows "str_join_nl (cue_lines fmt True i s @ rest) =
           cue_block fmt i s @ (if rest = [] then [nl] else nl # nl # str_join_nl rest)"
  unfolding cue_lines_written [OF assms] cue_block_def
  using str_join_nl_cue [of "str_nat i" "fmt (get_start_time s) @ '' --> '' @ fmt (get_end_time s)"
      "tagged_text s" rest]
  by simp

lemma concat_cue_lines_empty:
  assumes "\<forall>p \<in> set ps. round_trips fmt prs (snd p)"
  shows "concat (map (\<lambda>(i, s). cue_lines fmt True i s) ps) = [] \<longleftrightarrow> ps = []"
proof (cases ps)
  case Nil
  then show ?thesis by simp
next
  case (Cons p rest)
  obtain i s where p: "p = (i, s)" by (cases p)
  have "round_trips fmt prs s" using assms Cons p by simp
  then show ?thesis using Cons p by (simp add: cue_lines_written)
qed

lemma srt_text_blocks:
  assumes "\<forall>p \<in> set ps. round_trips fmt prs (snd p)"
  shows "ps \<noteq> [] \<Longrightarrow>
         str_join_nl (concat (map (\<lambda>(i, s). cue_lines fmt True i s) ps))
           = join_blocks (map (\<lambda>(i, s). cue_block fmt i s) ps) @ [nl]"
  using assms
proof (induction ps)
  case Nil
  then show ?case by simp
next
  case (Cons p ps)
  obtain i s where p: "p = (i, s)" by (cases p)
  have rt: "round_trips fmt prs s" using Cons.prems(2) p by simp
  have rest: "\<forall>q \<in> set ps. round_trips fmt prs (snd q)" using Cons.prems(2) by simp
  let ?rest = "concat (map (\<lambda>(i, s). cue_lines fmt True i s) ps)"
  have step: "str_join_nl (cue_lines fmt True i s @ ?rest) =
           cue_block fmt i s @ (if ?rest = [] then [nl] else nl # nl # str_join_nl ?rest)"
    using rt by (rule cue_lines_block)
  show ?case
  proof (cases "ps = []")
    case True
    then show ?thesis using step p by simp
  next
    case False
    then have ne: "?rest \<noteq> []" using concat_cue_lines_empty [OF rest] by simp
    have ih: "str_join_nl ?rest = join_blocks (map (\<lambda>(i, s). cue_block fmt i s) ps) @ [nl]"
      using False rest by (rule Cons.IH)
    obtain q qs where ps: "ps = q # qs" using False by (cases ps) auto
    show ?thesis
      using step ne ih p unfolding ps by simp
  qed
qed

lemma join_blocks_last:
  "bs \<noteq> [] \<Longrightarrow> \<forall>b \<in> set bs. b \<noteq> [] \<Longrightarrow> last (join_blocks bs) = last (last bs)"
  by (induction bs rule: join_blocks.induct) (simp_all add: join_blocks_head)

lemma join_blocks_nonempty:
  "bs \<noteq> [] \<Longrightarrow> \<forall>b \<in> set bs. b \<noteq> [] \<Longrightarrow> join_blocks bs \<noteq> []"
  by (cases bs) (simp_all add: join_blocks_head)

lemma strip_join_blocks:
  assumes "bs \<noteq> []" and "\<forall>b \<in> set bs. clean_block b"
  shows "str_strip (join_blocks bs @ [nl]) = join_blocks bs"
proof -
  have ne: "\<forall>b \<in> set bs. b \<noteq> []" using assms(2) by (simp add: clean_block_def)
  obtain b rest where bs: "bs = b # rest" using assms(1) by (cases bs) auto
  have b: "b \<noteq> []" "\<not> is_space (hd b)" using assms(2) bs by (simp_all add: clean_block_def)
  have 1: "join_blocks bs \<noteq> []" using assms(1) ne by (rule join_blocks_nonempty)
  have 2: "\<not> is_space (hd (join_blocks bs))"
    unfolding bs using join_blocks_head [OF b(1), of rest] b(2) by simp
  have "last bs \<in> set bs" using assms(1) by simp
  then have "\<not> is_space (last (last bs))" using assms(2) by (simp add: clean_block_def)
  then have 3: "\<not> is_space (last (join_blocks bs))"
    using join_blocks_last [OF assms(1) ne] by simp
  show ?thesis using 1 2 3 by (rule str_strip_trailing_nl)
qed

lemma parse_loop_written:
  assumes "\<forall>p \<in> set ps. round_trips fmt prs (snd p)"
  shows "parse_loop prs acc (map (\<lambda>(i, s). cue_block fmt i s) ps)
           = Inr (acc @ map (\<lambda>(i, s). parsed_cue i s) ps)"
  using assms
proof (induction ps arbitrary: acc)
  case Nil
  then show ?case by simp
next
  case (Cons p ps)
  obtain i s where p: "p = (i, s)" by (cases p)
  have rt: "round_trips fmt prs s" using Cons.prems p by simp
  have rest: "\<forall>q \<in> set ps. round_trips fmt prs (snd q)" using Cons.prems by simp
  show ?case
    using Cons.IH [OF rest, of "acc @ [parsed_cue i s]"]
    by (simp add: p parse_block_written [OF rt])
qed

text \<open>
  Claim C1, as the code has it: a transcript is read back from its SRT text (written with
  speaker tags) with the same start, end, text and speaker in every utterance, in the same
  order, when every utterance has a non-empty text without whitespace at its ends, an
  emitted text line (the text, after \<open>[speaker]\<close> and a space when there is a speaker)
  without a blank line inside, so that neither the text nor the speaker holds a newline
  followed, after whitespace only, by another newline, times that the time helpers carry
  unchanged through the timestamp pattern, and either a speaker without closing bracket
  together with a single-line text, or no speaker and a text that does not itself begin with
  a bracket tag. An absent start or end reads as 0 and an absent speaker as the empty
  string. The parser adds the block number as index and the duration.
\<close>

theorem srt_round_trip:
  assumes "\<forall>s \<in> set ss. round_trips fmt prs s"
  shows "parse_srt_content prs (srt_text fmt True ss)
           = Inr (map (\<lambda>(i, s). parsed_cue i s) (enumerate 1 ss))"
proof (cases "ss = []")
  case True
  have "parse_block prs [] = Inr None"
    by (simp add: parse_block_def str_strip_def)
  then show ?thesis
    using True by (simp add: parse_srt_content_def srt_text_def str_strip_def)
next
  case False
  define ps where "ps = enumerate 1 ss"
  define bs where "bs = map (\<lambda>(i, s). cue_block fmt i s) ps"
  have ps_ne: "ps \<noteq> []" using False by (cases ss) (simp_all add: ps_def)
  have all: "\<forall>p \<in> set ps. round_trips fmt prs (snd p)"
    using assms by (auto simp: ps_def in_set_enumerate_eq)
  have bs_ne: "bs \<noteq> []" using ps_ne by (simp add: bs_def)
  have clean: "\<forall>b \<in> set bs. clean_block b"
    using all by (auto simp: bs_def cue_block_clean)
  have "srt_text fmt True ss = str_join_nl (concat (map (\<lambda>(i, s). cue_lines fmt True i s) ps))"
    by (simp add: srt_text_def srt_loop_concat ps_def)
  also have "\<dots> = join_blocks bs @ [nl]"
    unfolding bs_def using all ps_ne by (rule srt_text_blocks)
  finally have written: "srt_text fmt True ss = join_blocks bs @ [nl]" .
  have strip: "str_strip (join_blocks bs @ [nl]) = join_blocks bs"
    using bs_ne clean by (rule strip_join_blocks)
  have split: "re_split_blank (join_blocks bs) = bs"
    using bs_ne clean by (rule re_split_blank_join)
  have "parse_loop prs [] bs = Inr ([] @ map (\<lambda>(i, s). parsed_cue i s) ps)"
    unfolding bs_def using all by (rule parse_loop_written)
  then show ?thesis
    unfolding parse_srt_content_def written strip split by (simp add: ps_def)
qed

lemma format_timestamp_samples:
  "format_timestamp 0 = ''00:00:00,000''"
  "format_timestamp 1.5 = ''00:00:01,500''"
  "format_timestamp 3 = ''00:00:03,000''"
  "format_timestamp 3661.25 = ''01:01:01,250''"
  "format_timestamp 1 = ''00:00:01,000''"
  "format_timestamp 0.0005 = ''00:00:00,000''"
  by (simp_all add: format_timestamp_def pad2_def pad3_def str_nat.simps digit_char_table
        digit_char_Suc_0)

lemma srt_time_to_seconds_samples:
  "srt_time_to_seconds ''00:00:00,000'' = Inr 0"
  "srt_time_to_seconds ''00:00:01,500'' = Inr 1.5"
  "srt_time_to_seconds ''00:00:03,000'' = Inr 3"
  "srt_time_to_seconds ''01:01:01,250'' = Inr 3661.25"
  "srt_time_to_seconds ''00:00:01,000'' = Inr 1"
  by (simp_all add: eval_parse)

lemma is_timestamp_samples:
  "is_timestamp ''00:00:00,000''" "is_timestamp ''00:00:01,500''" "is_timestamp ''00:00:03,000''"
  "is_timestamp ''01:01:01,250''" "is_timestamp ''00:00:01,000''"
  by (simp_all add: is_timestamp_def pattern_char_def is_digit_def)

lemma sample_transcript_round_trips:
  "\<forall>s \<in> set sample_transcript. round_trips format_timestamp srt_time_to_seconds s"
  by (simp add: sample_transcript_def round_trips_def codec_time_def tagged_text_def
        get_text_def get_speaker_def get_start_time_def get_end_time_def
        format_timestamp_samples [simplified] srt_time_to_seconds_samples [simplified]
        is_timestamp_samples str_strip_def is_space_def whitespace_def nl_def)

theorem srt_round_trip_witness:
  "parse_srt_content srt_time_to_seconds (srt_text format_timestamp True sample_transcript)
   = Inr [\<lparr>index = Some 1, start_time = Some 0, end_time = Some 1.5,
            sentence_text = Some ''Hello. How are you?'', speaker = Some ''spk0'',
            duration = Some 1.5\<rparr>,
          \<lparr>index = Some 2, start_time = Some 1.5, end_time = Some 3,
            sentence_text = Some ''Fine.'', speaker = Some ''spk1'', duration = Some 1.5\<rparr>,
          \<lparr>index = Some 3, start_time = Some 3, end_time = Some 3661.25,
            sentence_text = Some ''Good'', speaker = Some ''spk0'', duration = Some 3658.25\<rparr>]"
proof -
  have e: "enumerate 1 [x, y, z] = [(1, x), (2, y), (3, z)]" for x y z :: sentence
    by (simp add: numeral_2_eq_2 numeral_3_eq_3)
  show ?thesis
    unfolding srt_round_trip [OF sample_transcript_round_trips]
    by (simp add: sample_transcript_def e parsed_cue_def get_text_def get_speaker_def
          get_start_time_def get_end_time_def)
qed

lemma enumerate_one: "enumerate 1 [x] = [(1, x)]"
  by simp

lemmas eval_write =
  srt_text_def cue_lines_def get_text_def get_speaker_def get_start_time_def get_end_time_def
  str_nat.simps digit_char_table digit_char_Suc_0

text \<open>
  Claim C1 as stated fails on utterances with non-empty text and a speaker without closing
  bracket: the second line of a two-line text is lost when the speaker tag is read, the
  whitespace around a text is not written, a time below the millisecond is not kept, and a
  blank line inside the speaker cuts the block in two, so that the tag is not read at all.
\<close>

theorem srt_round_trip_counterexample:
  "parse_srt_content srt_time_to_seconds
     (srt_text format_timestamp True
        [\<lparr>index = None, start_time = Some 0, end_time = Some 1,
          sentence_text = Some (''a'' @ [nl] @ ''b''), speaker = Some ''s'', duration = None\<rparr>])
   = Inr [\<lparr>index = Some 1, start_time = Some 0, end_time = Some 1,
            sentence_text = Some ''a'', speaker = Some ''s'', duration = Some 1\<rparr>]
   \<and> parse_srt_content srt_time_to_seconds
     (srt_text format_timestamp True
        [\<lparr>index = None, start_time = Some 0, end_time = Some 1,
          sentence_text = Some '' hi'', speaker = Some ''s'', duration = None\<rparr>])
   = Inr [\<lparr>index = Some 1, start_time = Some 0, end_time = Some 1,
            sentence_text = Some ''hi'', speaker = Some ''s'', duration = Some 1\<rparr>]
   \<and> parse_srt_content srt_time_to_seconds
     (srt_text format_timestamp True
        [\<lparr>index = None, start_time = Some 0.0005, end_time = Some 1,
          sentence_text = Some ''hi'', speaker = Some ''s'', duration = None\<rparr>])
   = Inr [\<lparr>index = Some 1, start_time = Some 0, end_time = Some 1,
            sentence_text = Some ''hi'', speaker = Some ''s'', duration = Some 1\<rparr>]
   \<and> parse_srt_content srt_time_to_seconds
     (srt_text format_timestamp True
        [\<lparr>index = None, start_time = Some 0, end_time = Some 1,
          sentence_text = Some ''x'', speaker = Some (''A'' @ [nl, nl] @ ''B''), duration = None\<rparr>])
   = Inr [\<lparr>index = Some 1, start_time = Some 0, end_time = Some 1,
            sentence_text = Some ''[A'', speaker = Some [], duration = Some 1\<rparr>]"
  by (simp add: enumerate_one eval_write format_timestamp_samples [simplified]
        parse_srt_content_def eval_parse)

end
